theory Spec2Isabelle
  imports Main "HOL-Library.Multiset"
begin

section \<open>Rich-text spans\<close>

text \<open>
  The extraction engine of \<^verbatim>\<open>src/lib/footnotes.ts\<close> and \<^verbatim>\<open>src/lib/citations.ts\<close> works on
  arrays of \<^verbatim>\<open>RichText\<close> objects. A JavaScript string is a sequence of code units and
  \<^verbatim>\<open>length\<close>, \<^verbatim>\<open>substring\<close> and \<^verbatim>\<open>match.index\<close> count them; a string is modelled as a
  \<open>char list\<close>, one \<open>char\<close> per code unit (code units below 256). Positions are natural
  numbers.
\<close>

text \<open>
  Modelled from the spec: the types \<^verbatim>\<open>RichText\<close>, \<^verbatim>\<open>Text\<close>, \<^verbatim>\<open>Annotation\<close>, \<^verbatim>\<open>Equation\<close> and
  \<^verbatim>\<open>Mention\<close> are declared in \<^verbatim>\<open>interfaces.ts\<close>, which is not among the sources. The records
  follow section 3 of the spec (a span has \<^verbatim>\<open>PlainText\<close>, an optional \<^verbatim>\<open>Text\<close> with \<^verbatim>\<open>Content\<close>
  and \<^verbatim>\<open>Link\<close>, an \<^verbatim>\<open>Annotation\<close> with five booleans and a colour, optional \<^verbatim>\<open>Equation\<close> and
  \<^verbatim>\<open>Mention\<close>, and the two marker flags with their references) and carry the further fields
  that the two modules read and write: \<^verbatim>\<open>Href\<close>, \<^verbatim>\<open>InternalHref\<close>, and the payloads of a
  mention as \<^verbatim>\<open>convertNotionRichTextToOurFormat\<close> builds them. The fields \<^verbatim>\<open>Type\<close> of a mention
  and of a page reference, \<^verbatim>\<open>Href\<close> of a link mention, and \<^verbatim>\<open>Name\<close> and \<^verbatim>\<open>Url\<close> of a custom emoji
  are renamed, since the field names of all records share one name space.
\<close>

record Annotation =
  Bold :: bool
  Italic :: bool
  Strikethrough :: bool
  Underline :: bool
  Code :: bool
  Color :: string

record Link =
  Url :: string

record Text =
  Content :: string
  Link :: "Link option"

record Equation =
  Expression :: string

record InterlinkedContent =
  PageId :: string
  ContentType :: string

record LinkMention =
  LinkHref :: "string option"
  Title :: "string option"
  IconUrl :: "string option"
  Description :: "string option"
  LinkAuthor :: "string option"
  ThumbnailUrl :: "string option"
  Height :: "int option"
  IframeUrl :: "string option"
  LinkProvider :: "string option"

record CustomEmoji =
  EmojiName :: string
  EmojiUrl :: string

record Mention =
  MentionType :: string
  Page :: "InterlinkedContent option"
  DateStr :: "string option"
  LinkMention :: "LinkMention option"
  CustomEmoji :: "CustomEmoji option"

text \<open>
  \<^verbatim>\<open>InternalHref\<close> is copied by \<^verbatim>\<open>cloneRichText\<close> with one spread and never read by the two
  modules; its own fields are kept as one value.
\<close>

record InternalHref =
  HrefFields :: "string list"

record RichText =
  PlainText :: string
  Text :: "Text option"
  Annotation :: Annotation
  Equation :: "Equation option"
  Mention :: "Mention option"
  InternalHref :: "InternalHref option"
  Href :: "string option"
  IsFootnoteMarker :: "bool option"
  FootnoteRef :: "string option"
  IsCitationMarker :: "bool option"
  CitationRef :: "string option"

text \<open>\<^verbatim>\<open>joinPlainText\<close>: \<^verbatim>\<open>richTexts.map((rt) => rt.PlainText).join("")\<close>.\<close>

definition joinPlainText :: "RichText list \<Rightarrow> string" where
  "joinPlainText richTexts = concat (map PlainText richTexts)"

text \<open>
  \<^verbatim>\<open>cloneRichText\<close> on values: every spread copies the fields of one object. On values the
  copy is equal to its argument; what the copy shares with its argument is the subject of
  the store model further down.
\<close>

definition cloneRichText :: "RichText \<Rightarrow> RichText" where
  "cloneRichText richText =
     richText\<lparr>
       Text := (case Text richText of
                  Some t \<Rightarrow> Some (t\<lparr>Link := (case Link t of Some l \<Rightarrow> Some l | None \<Rightarrow> None)\<rparr>)
                | None \<Rightarrow> None),
       Annotation := Annotation richText,
       Equation := (case Equation richText of Some e \<Rightarrow> Some e | None \<Rightarrow> None),
       Mention := (case Mention richText of Some m \<Rightarrow> Some m | None \<Rightarrow> None),
       InternalHref := (case InternalHref richText of Some h \<Rightarrow> Some h | None \<Rightarrow> None)\<rparr>"

text \<open>
  \<^verbatim>\<open>String.prototype.substring(a, b)\<close> on natural numbers: both bounds are clamped to the
  length and swapped when \<open>a > b\<close>. \<^verbatim>\<open>substring(a)\<close> is \<open>drop a\<close>.
\<close>

definition substring :: "string \<Rightarrow> nat \<Rightarrow> nat \<Rightarrow> string" where
  "substring s a b =
     (let a' = min a (length s); b' = min b (length s);
          lo = min a' b'; hi = max a' b'
      in take (hi - lo) (drop lo s))"

text \<open>
  The two assignments that follow every clone in the split and extract loops:
  \<^verbatim>\<open>part.PlainText = s; if (part.Text) part.Text.Content = part.PlainText\<close>.
\<close>

definition setPlainText :: "string \<Rightarrow> RichText \<Rightarrow> RichText" where
  "setPlainText s part =
     part\<lparr>PlainText := s,
          Text := (case Text part of Some t \<Rightarrow> Some (t\<lparr>Content := s\<rparr>) | None \<Rightarrow> None)\<rparr>"

text \<open>
  \<^verbatim>\<open>splitRichTextsAtCharPosition\<close> (the same text in both modules). The loop runs over the
  spans with the running position \<open>currentPos\<close> and pushes onto \<open>before\<close> and \<open>after\<close>.
\<close>

fun split_loop ::
  "nat \<Rightarrow> nat \<Rightarrow> RichText list \<times> RichText list \<Rightarrow> RichText list
     \<Rightarrow> RichText list \<times> RichText list" where
  "split_loop splitCharPos currentPos (before, after) [] = (before, after)"
| "split_loop splitCharPos currentPos (before, after) (richText # rest) =
     (let len = length (PlainText richText);
          rtStart = currentPos;
          rtEnd = currentPos + len
      in if splitCharPos \<le> rtStart then
           split_loop splitCharPos (currentPos + len) (before, after @ [richText]) rest
         else if splitCharPos \<ge> rtEnd then
           split_loop splitCharPos (currentPos + len) (before @ [richText], after) rest
         else
           (let splitOffset = splitCharPos - rtStart;
                before' = (if splitOffset > 0
                           then before @ [setPlainText (substring (PlainText richText) 0 splitOffset)
                                            (cloneRichText richText)]
                           else before);
                after' = (if splitOffset < len
                          then after @ [setPlainText (drop splitOffset (PlainText richText))
                                          (cloneRichText richText)]
                          else after)
            in split_loop splitCharPos (currentPos + len) (before', after') rest))"

definition splitRichTextsAtCharPosition ::
  "RichText list \<Rightarrow> nat \<Rightarrow> RichText list \<times> RichText list" where
  "splitRichTextsAtCharPosition richTexts splitCharPos =
     split_loop splitCharPos 0 ([], []) richTexts"

section \<open>Regular expressions\<close>

text \<open>
  The patterns whose source is fixed (the three citation patterns, the literal
  \<^verbatim>\<open>/\n\n\[\^/\<close>, and the content pattern, whose prefix is escaped) are a literal opener, a
  greedy run of key characters (at least one), a literal closer, and then either nothing
  or a greedy run of white space. No closer is a key character, so giving back key
  characters never helps and the greedy attempt decides the match at a position. Such a
  pattern is modelled by its attempt at one position: it is given the code unit before the
  position (\<open>None\<close> at position 0) and the text from the position on, and returns the
  captured key and the length of the whole match.
\<close>

type_synonym matcher = "char option \<Rightarrow> string \<Rightarrow> (string \<times> nat) option"

record RegExpMatch =
  index :: nat
  whole :: string
  group1 :: string

fun strip_prefix :: "string \<Rightarrow> string \<Rightarrow> string option" where
  "strip_prefix [] s = Some s"
| "strip_prefix (p # ps) [] = None"
| "strip_prefix (p # ps) (c # cs) = (if p = c then strip_prefix ps cs else None)"

text \<open>\<^verbatim>\<open>[a-zA-Z0-9_]\<close>, which is also \<^verbatim>\<open>\w\<close>.\<close>

definition word_char :: "char \<Rightarrow> bool" where
  "word_char c \<longleftrightarrow>
     c \<in> set ''abcdefghijklmnopqrstuvwxyzABCDEFGHIJKLMNOPQRSTUVWXYZ0123456789_''"

text \<open>\<^verbatim>\<open>[a-zA-Z0-9_\-:]\<close>.\<close>

definition citekey_char :: "char \<Rightarrow> bool" where
  "citekey_char c \<longleftrightarrow> word_char c \<or> c = CHR ''-'' \<or> c = CHR '':''"

text \<open>
  \<^verbatim>\<open>\s\<close>, and the characters removed by \<^verbatim>\<open>trim\<close>, \<^verbatim>\<open>trimStart\<close> and \<^verbatim>\<open>trimEnd\<close>: tab, line
  feed, vertical tab, form feed, carriage return, space and no-break space (the white space
  and line terminators among the code units below 256).
\<close>

definition white_space :: "char \<Rightarrow> bool" where
  "white_space c \<longleftrightarrow>
     c \<in> set [CHR 0x09, CHR 0x0A, CHR 0x0B, CHR 0x0C, CHR 0x0D, CHR 0x20, CHR 0xA0]"

definition trimStart :: "string \<Rightarrow> string" where
  "trimStart s = dropWhile white_space s"

definition trimEnd :: "string \<Rightarrow> string" where
  "trimEnd s = rev (dropWhile white_space (rev s))"

definition trim :: "string \<Rightarrow> string" where
  "trim s = trimEnd (trimStart s)"

text \<open>
  The loop \<^verbatim>\<open>while ((match = pattern.exec(text)) !== null)\<close> of a global pattern, started
  with \<^verbatim>\<open>lastIndex = 0\<close>: the leftmost match at or after \<^verbatim>\<open>lastIndex\<close> is returned and
  \<^verbatim>\<open>lastIndex\<close> moves to its end; the \<^verbatim>\<open>null\<close> that ends the loop resets \<^verbatim>\<open>lastIndex\<close> to 0,
  so every loop starts at 0. \<open>skip\<close> counts the code units still covered by the last match.
  No pattern of a fixed source matches the empty string.
\<close>

fun exec_all :: "matcher \<Rightarrow> char option \<Rightarrow> nat \<Rightarrow> nat \<Rightarrow> string \<Rightarrow> RegExpMatch list" where
  "exec_all pattern prev pos skip [] = []"
| "exec_all pattern prev pos (Suc k) (c # cs) = exec_all pattern (Some c) (Suc pos) k cs"
| "exec_all pattern prev pos 0 (c # cs) =
     (case pattern prev (c # cs) of
        None \<Rightarrow> exec_all pattern (Some c) (Suc pos) 0 cs
      | Some (g, len) \<Rightarrow>
          \<lparr>index = pos, whole = take len (c # cs), group1 = g\<rparr>
            # exec_all pattern (Some c) (Suc pos) (len - 1) cs)"

text \<open>
  The regular expressions of the host. \<^verbatim>\<open>new RegExp(source, flags)\<close> reads its source as a
  pattern and throws a \<^verbatim>\<open>SyntaxError\<close> when the source is not one. \<^verbatim>\<open>pattern.exec(text)\<close> of a
  global pattern looks for the leftmost match at or after \<^verbatim>\<open>lastIndex\<close>: it returns the match
  (\<^verbatim>\<open>match.index\<close>, the matched text \<^verbatim>\<open>match[0]\<close> and the first group \<^verbatim>\<open>match[1]\<close>, which is
  \<^verbatim>\<open>undefined\<close> when the group took no part in the match) and moves \<^verbatim>\<open>lastIndex\<close> to the end
  of the match, or it returns \<^verbatim>\<open>null\<close> and resets \<^verbatim>\<open>lastIndex\<close> to 0. The engine is not part
  of the sources. Where a pattern is built from the configured marker prefix, which is put
  into the source of the pattern as it is, the constructor is a parameter of the model: a
  pattern is then what \<^verbatim>\<open>exec\<close> answers for a text and a \<^verbatim>\<open>lastIndex\<close>.
\<close>

datatype error = SyntaxError

record RegExpExecArray =
  match_index :: nat
  match_0 :: string
  match_1 :: "string option"

type_synonym RegExp = "string \<Rightarrow> nat \<Rightarrow> RegExpExecArray option"

type_synonym RegExp_constructor = "string \<Rightarrow> string \<Rightarrow> error + RegExp"

text \<open>
  The loop \<^verbatim>\<open>while ((match = pattern.exec(text)) !== null)\<close> of such a pattern, from a given
  \<^verbatim>\<open>lastIndex\<close>: the matches in the order of the rounds. A pattern that matches the empty
  string at \<^verbatim>\<open>lastIndex\<close> is answered the same match in every round, and the loop does not
  end: the result is then \<open>None\<close>.
\<close>

partial_function (option) exec_loop :: "RegExp \<Rightarrow> string \<Rightarrow> nat \<Rightarrow> RegExpExecArray list option" where
  "exec_loop pattern s lastIndex =
     (case pattern s lastIndex of
        None \<Rightarrow> Some []
      | Some m \<Rightarrow>
          Option.bind (exec_loop pattern s (match_index m + length (match_0 m)))
            (\<lambda>ms. Some (m # ms)))"

declare exec_loop.simps [code]

text \<open>
  The source of the pattern of \<^verbatim>\<open>findAllFootnoteMarkers\<close>,
  \<^verbatim>\<open>`\\[\\^${markerPrefix}([a-zA-Z0-9_]+)\\](?!:)`\<close>, and of the pattern of
  \<^verbatim>\<open>parseFootnoteDefinitionsFromRichText\<close>,
  \<^verbatim>\<open>`\\n\\n\\[\\^${markerPrefix}([a-zA-Z0-9_]+)\\]:\\s*`\<close>: the strings that the two template
  literals denote (two backslashes of a template literal are one backslash of the string).
\<close>

definition inline_marker_source :: "string \<Rightarrow> string" where
  "inline_marker_source markerPrefix =
     CHR 0x5C # ''['' @ CHR 0x5C # ''^'' @ markerPrefix @ ''([a-zA-Z0-9_]+)''
       @ CHR 0x5C # '']'' @ ''(?!:)''"

definition definition_source :: "string \<Rightarrow> string" where
  "definition_source markerPrefix =
     CHR 0x5C # ''n'' @ CHR 0x5C # ''n'' @ CHR 0x5C # ''['' @ CHR 0x5C # ''^'' @ markerPrefix
       @ ''([a-zA-Z0-9_]+)'' @ CHR 0x5C # '']:'' @ CHR 0x5C # ''s*''"

text \<open>
  A value in a template literal: \<^verbatim>\<open>`${marker}`\<close> of an undefined marker is the text
  \<^verbatim>\<open>undefined\<close>.
\<close>

definition template_text :: "string option \<Rightarrow> string" where
  "template_text v = (case v of Some s \<Rightarrow> s | None \<Rightarrow> ''undefined'')"

text \<open>
  \<^verbatim>\<open>createContentPattern\<close>: \<^verbatim>\<open>new RegExp(`^\\[\\^${escapedPrefix}(\\w+)\\]:\\s*`, "gm")\<close>. The
  prefix is escaped, so it is literal. With the \<^verbatim>\<open>m\<close> flag \<^verbatim>\<open>^\<close> holds at position 0 and
  after a line terminator.
\<close>

definition line_start :: "char option \<Rightarrow> bool" where
  "line_start prev = (case prev of None \<Rightarrow> True | Some c \<Rightarrow> c = CHR 0x0A \<or> c = CHR 0x0D)"

definition createContentPattern :: "string \<Rightarrow> matcher" where
  "createContentPattern markerPrefix prev s =
     (if \<not> line_start prev then None
      else case strip_prefix (''[^'' @ markerPrefix) s of
        None \<Rightarrow> None
      | Some r \<Rightarrow>
          (let marker = takeWhile word_char r; r' = dropWhile word_char r
           in if marker = [] then None
              else (case strip_prefix '']:'' r' of
                      None \<Rightarrow> None
                    | Some r'' \<Rightarrow>
                        Some (marker, length (''[^'' @ markerPrefix) + length marker + 2
                                        + length (takeWhile white_space r'')))))"

text \<open>
  The three citation patterns \<^verbatim>\<open>/\[@([a-zA-Z0-9_\-:]+)\]/g\<close>,
  \<^verbatim>\<open>/\\cite\{([a-zA-Z0-9_\-:]+)\}/g\<close> and \<^verbatim>\<open>/#cite\(([a-zA-Z0-9_\-:]+)\)/g\<close>: an opener, the
  key, one closing character.
\<close>

definition citation_pattern :: "string \<Rightarrow> char \<Rightarrow> matcher" where
  "citation_pattern opener closer prev s =
     (case strip_prefix opener s of
        None \<Rightarrow> None
      | Some r \<Rightarrow>
          (let k = takeWhile citekey_char r; r' = dropWhile citekey_char r
           in if k = [] then None
              else (case r' of
                      [] \<Rightarrow> None
                    | c # _ \<Rightarrow> if c = closer then Some (k, length opener + length k + 1)
                               else None)))"

section \<open>Blocks and locations\<close>

text \<open>
  Modelled from the spec: the type \<^verbatim>\<open>Block\<close> is declared in \<^verbatim>\<open>interfaces.ts\<close>, which is not
  among the sources. The spec (section 3) describes a block as a tagged union with exactly one
  populated content variant; the variants are those that \<^verbatim>\<open>getAllRichTextLocations\<close>,
  \<^verbatim>\<open>getChildrenFromBlock\<close> and \<^verbatim>\<open>setChildrenInBlock\<close> test, grouped by shape: the ten text
  variants with \<^verbatim>\<open>RichTexts\<close> and optional \<^verbatim>\<open>Children\<close>, the eight variants with a
  \<^verbatim>\<open>Caption\<close>, \<^verbatim>\<open>Table\<close> with its rows of cells, and \<^verbatim>\<open>SyncedBlock\<close> with optional
  \<^verbatim>\<open>Children\<close>. A missing caption or row list yields no location, as an empty one does, and
  is modelled as the empty list. Fields that the two modules never touch are left out.
\<close>

datatype text_kind =
  Paragraph | Heading1 | Heading2 | Heading3 | BulletedListItem | NumberedListItem
  | ToDo | Quote | Callout | Toggle

datatype caption_kind =
  CodeCaption | NImage | Video | NAudio | File | Embed | Bookmark | LinkPreview

datatype Block =
    TextBlock string text_kind "RichText list" "Block list option"
  | CaptionBlock string caption_kind "RichText list"
  | TableBlock string "RichText list list list"
  | SyncedBlock string "Block list option"
  | OtherBlock string

fun Id :: "Block \<Rightarrow> string" where
  "Id (TextBlock i k rts ch) = i"
| "Id (CaptionBlock i k cap) = i"
| "Id (TableBlock i rows) = i"
| "Id (SyncedBlock i ch) = i"
| "Id (OtherBlock i) = i"

text \<open>
  The property path of a location: \<^verbatim>\<open>"Paragraph.RichTexts"\<close>, ..., \<^verbatim>\<open>"Code.Caption"\<close>, ...,
  \<^verbatim>\<open>`Table.Rows[${rowIndex}].Cells[${cellIndex}]`\<close>. The paths are compared for equality and
  tested for the substrings \<^verbatim>\<open>Caption\<close> and \<^verbatim>\<open>Table\<close>; distinct constructors stand for
  distinct strings.
\<close>

datatype property_path =
    RichTextsOf text_kind
  | CaptionOf caption_kind
  | TableCell nat nat

record RichTextLocation =
  property :: property_path
  richTexts :: "RichText list"

text \<open>
  The \<^verbatim>\<open>setter\<close> closure of a location writes the field named by its path in the block it
  was discovered in. Blocks are values here, so the setter returns the updated block. A
  path that the block does not have cannot reach a setter (it would write through
  \<^verbatim>\<open>undefined\<close> in the source); the block is returned as it is.
\<close>

fun setter :: "property_path \<Rightarrow> RichText list \<Rightarrow> Block \<Rightarrow> Block" where
  "setter (RichTextsOf k) rt (TextBlock i k' rts ch) =
     (if k = k' then TextBlock i k' rt ch else TextBlock i k' rts ch)"
| "setter (CaptionOf k) rt (CaptionBlock i k' cap) =
     (if k = k' then CaptionBlock i k' rt else CaptionBlock i k' cap)"
| "setter (TableCell rowIndex cellIndex) rt (TableBlock i rows) =
     (if rowIndex < length rows \<and> cellIndex < length (rows ! rowIndex)
      then TableBlock i (rows[rowIndex := (rows ! rowIndex)[cellIndex := rt]])
      else TableBlock i rows)"
| "setter p rt block = block"

definition addLocation :: "property_path \<Rightarrow> RichText list \<Rightarrow> RichTextLocation list" where
  "addLocation p rts = (if rts \<noteq> [] then [\<lparr>property = p, richTexts = rts\<rparr>] else [])"

definition row_locations :: "nat \<Rightarrow> RichText list list \<Rightarrow> RichTextLocation list" where
  "row_locations rowIndex cells =
     concat (map (\<lambda>(cellIndex, cell). addLocation (TableCell rowIndex cellIndex) cell)
               (enumerate 0 cells))"

fun getAllRichTextLocations :: "Block \<Rightarrow> RichTextLocation list" where
  "getAllRichTextLocations (TextBlock i k rts ch) = addLocation (RichTextsOf k) rts"
| "getAllRichTextLocations (CaptionBlock i k cap) = addLocation (CaptionOf k) cap"
| "getAllRichTextLocations (TableBlock i rows) =
     concat (map (\<lambda>(rowIndex, row). row_locations rowIndex row) (enumerate 0 rows))"
| "getAllRichTextLocations (SyncedBlock i ch) = []"
| "getAllRichTextLocations (OtherBlock i) = []"

section \<open>Citation extraction\<close>

text \<open>
  Modelled from the spec: the types \<^verbatim>\<open>ParsedCitationEntry\<close>, \<^verbatim>\<open>Citation\<close>, \<^verbatim>\<open>CitationsConfig\<close> and
  \<^verbatim>\<open>CitationExtractionResult\<close> are declared in \<^verbatim>\<open>interfaces.ts\<close>, which is not among the
  sources; the records have the fields that \<^verbatim>\<open>citations.ts\<close> reads and sets (spec, section 3).
  \<^verbatim>\<open>Index\<close> is optional (\<^verbatim>\<open>a.Index || 0\<close>) and an integer, and the bibliography is a map from
  keys to entries. The fields \<^verbatim>\<open>authors\<close> and \<^verbatim>\<open>year\<close> of the result of \<^verbatim>\<open>formatCitation\<close> carry
  the prefix \<open>fmt\<close>.
\<close>

record ParsedCitationEntry =
  key :: string
  authors :: string
  year :: string
  ieee_formatted :: string
  apa_formatted :: string

datatype bibliography_style = apa | simplified_ieee

record FormattedCitation =
  inText :: string
  bibliography :: string
  fmt_authors :: string
  fmt_year :: string

record Citation =
  Key :: string
  FormattedEntry :: string
  Authors :: string
  Year :: string
  Index :: "int option"
  SourceBlockIds :: "string list"

text \<open>
  \<^verbatim>\<open>config["extract-and-process-bibtex-citations"]\<close>: the in-text format and whether
  \<^verbatim>\<open>["bibliography-format"]["simplified-ieee"]\<close> is set.
\<close>

record CitationsConfig =
  in_text_citation_format :: string
  bibliography_format_simplified_ieee :: bool

record CitationExtractionResult =
  citations :: "Citation list"
  processedRichTexts :: bool

definition formatCitation :: "ParsedCitationEntry \<Rightarrow> bibliography_style \<Rightarrow> FormattedCitation" where
  "formatCitation entry style =
     \<lparr>inText = (if style = apa then authors entry @ '', '' @ year entry else ''[?]''),
      bibliography = (if style = apa then apa_formatted entry else ieee_formatted entry),
      fmt_authors = authors entry,
      fmt_year = year entry\<rparr>"

text \<open>The pattern chosen by the configured format; \<open>None\<close> is the unknown format.\<close>

definition citation_regex :: "string \<Rightarrow> matcher option" where
  "citation_regex citationFormat =
     (if citationFormat = ''[@key]'' then Some (citation_pattern ''[@'' (CHR '']''))
      else if citationFormat = CHR 0x5C # ''cite{key}''
        then Some (citation_pattern (CHR 0x5C # ''cite{'') (CHR ''}''))
      else if citationFormat = ''#cite(key)'' then Some (citation_pattern ''#cite('' (CHR '')''))
      else None)"

record CitationMatch =
  m_key :: string
  m_start :: nat
  m_end :: nat
  fullMatch :: string

text \<open>The walk that looks for the run holding \<open>charStart\<close> and reads its Code annotation.\<close>

fun in_code :: "nat \<Rightarrow> nat \<Rightarrow> RichText list \<Rightarrow> bool" where
  "in_code charStart currentPos [] = False"
| "in_code charStart currentPos (richText # rest) =
     (let rtEnd = currentPos + length (PlainText richText)
      in if charStart \<ge> currentPos \<and> charStart < rtEnd then Code (Annotation richText)
         else in_code charStart rtEnd rest)"

definition to_citation_match :: "RegExpMatch \<Rightarrow> CitationMatch" where
  "to_citation_match m =
     \<lparr>m_key = group1 m, m_start = index m, m_end = index m + length (whole m),
      fullMatch = whole m\<rparr>"

text \<open>
  The matches of one location: every regex match is looked up in the runs, skipped
  (\<^verbatim>\<open>continue\<close>) when its run is code, and pushed otherwise.
\<close>

definition find_citation_matches :: "matcher \<Rightarrow> RichText list \<Rightarrow> CitationMatch list" where
  "find_citation_matches pattern rts =
     map to_citation_match
       (filter (\<lambda>m. \<not> in_code (index m) 0 rts)
          (exec_all pattern None 0 0 (joinPlainText rts)))"

definition default_annotation :: Annotation where
  "default_annotation =
     \<lparr>Bold = False, Italic = False, Strikethrough = False, Underline = False, Code = False,
      Color = ''default''\<rparr>"

definition markerText :: "CitationMatch \<Rightarrow> RichText" where
  "markerText m =
     \<lparr>PlainText = fullMatch m,
      Text = Some \<lparr>Content = fullMatch m, Link = None\<rparr>,
      Annotation = default_annotation,
      Equation = None, Mention = None, InternalHref = None, Href = None,
      IsFootnoteMarker = None, FootnoteRef = None,
      IsCitationMarker = Some True,
      CitationRef = Some (m_key m)\<rparr>"

definition make_citation :: "CitationMatch \<Rightarrow> FormattedCitation \<Rightarrow> Citation" where
  "make_citation m formatted =
     \<lparr>Key = m_key m, FormattedEntry = bibliography formatted, Authors = fmt_authors formatted,
      Year = fmt_year formatted, Index = None, SourceBlockIds = []\<rparr>"

text \<open>
  The loop \<^verbatim>\<open>for (const m of matches)\<close> over the reversed matches, with the state
  \<^verbatim>\<open>newRichTexts\<close> and \<^verbatim>\<open>citations\<close>.
\<close>

fun replace_loop ::
  "(string \<rightharpoonup> ParsedCitationEntry) \<Rightarrow> bibliography_style \<Rightarrow> CitationMatch list
     \<Rightarrow> RichText list \<times> Citation list \<Rightarrow> RichText list \<times> Citation list" where
  "replace_loop bibEntries style [] (newRichTexts, cits) = (newRichTexts, cits)"
| "replace_loop bibEntries style (m # ms) (newRichTexts, cits) =
     (case bibEntries (m_key m) of
        None \<Rightarrow> replace_loop bibEntries style ms (newRichTexts, cits)
      | Some entry \<Rightarrow>
          (let formatted = formatCitation entry style;
               citation = make_citation m formatted;
               (before, after) = splitRichTextsAtCharPosition newRichTexts (m_start m);
               (markerBefore, afterMarker) =
                  splitRichTextsAtCharPosition after (m_end m - m_start m)
           in replace_loop bibEntries style ms
                (before @ [markerText m] @ afterMarker, cits @ [citation])))"

text \<open>
  The loop \<^verbatim>\<open>for (const location of locations)\<close>. The block is mutated through the setters;
  the state is the block, the citations and \<^verbatim>\<open>processedAny\<close>.
\<close>

fun citation_locations_loop ::
  "matcher \<Rightarrow> (string \<rightharpoonup> ParsedCitationEntry) \<Rightarrow> bibliography_style \<Rightarrow> RichTextLocation list
     \<Rightarrow> Block \<times> Citation list \<times> bool \<Rightarrow> Block \<times> Citation list \<times> bool" where
  "citation_locations_loop pattern bibEntries style [] state = state"
| "citation_locations_loop pattern bibEntries style (location # rest) (block, cits, processedAny) =
     (let matches = find_citation_matches pattern (richTexts location)
      in if matches = [] then
           citation_locations_loop pattern bibEntries style rest (block, cits, processedAny)
         else
           (let (newRichTexts, cits') =
                  replace_loop bibEntries style (rev matches) (richTexts location, cits)
            in citation_locations_loop pattern bibEntries style rest
                 (setter (property location) newRichTexts block, cits', True)))"

text \<open>
  \<^verbatim>\<open>extractCitationsFromBlock\<close> returns its result record; the block it has mutated is returned
  with it.
\<close>

definition extractCitationsFromBlock ::
  "Block \<Rightarrow> CitationsConfig \<Rightarrow> (string \<rightharpoonup> ParsedCitationEntry)
     \<Rightarrow> Block \<times> CitationExtractionResult" where
  "extractCitationsFromBlock block config bibEntries =
     (let locations = getAllRichTextLocations block
      in if locations = [] then (block, \<lparr>citations = [], processedRichTexts = False\<rparr>)
         else
           (let citationFormat = in_text_citation_format config;
                bibliographyStyle =
                  (if bibliography_format_simplified_ieee config then simplified_ieee else apa)
            in case citation_regex citationFormat of
                 None \<Rightarrow> (block, \<lparr>citations = [], processedRichTexts = False\<rparr>)
               | Some pattern \<Rightarrow>
                   (let (block', cits, processedAny) =
                          citation_locations_loop pattern bibEntries bibliographyStyle locations
                            (block, [], False)
                    in (block', \<lparr>citations = cits, processedRichTexts = processedAny\<rparr>))))"

section \<open>Sorting\<close>

text \<open>
  \<^verbatim>\<open>Array.prototype.sort(compare)\<close>. The engine's algorithm is not part of the sources; the
  language standard fixes its result for a consistent comparator: the elements in
  non-decreasing order of the comparator, elements that compare equal in their original
  order. It is modelled by the stable insertion sort, which computes that result.
\<close>

fun insert_sorted :: "('a \<Rightarrow> 'a \<Rightarrow> int) \<Rightarrow> 'a \<Rightarrow> 'a list \<Rightarrow> 'a list" where
  "insert_sorted compare x [] = [x]"
| "insert_sorted compare x (y # ys) =
     (if compare x y \<le> 0 then x # y # ys else y # insert_sorted compare x ys)"

definition array_sort :: "('a \<Rightarrow> 'a \<Rightarrow> int) \<Rightarrow> 'a list \<Rightarrow> 'a list" where
  "array_sort compare xs = foldr (insert_sorted compare) xs []"

text \<open>
  \<^verbatim>\<open>prepareBibliography\<close>. \<^verbatim>\<open>a.Index || 0\<close> is 0 for a citation without index.
  \<^verbatim>\<open>String.prototype.localeCompare\<close> is the collation of the host's locale; it is a parameter
  of the model.
\<close>

definition index_or_0 :: "Citation \<Rightarrow> int" where
  "index_or_0 a = (case Index a of Some n \<Rightarrow> n | None \<Rightarrow> 0)"

definition prepareBibliography ::
  "(string \<Rightarrow> string \<Rightarrow> int) \<Rightarrow> Citation list \<Rightarrow> bibliography_style \<Rightarrow> Citation list" where
  "prepareBibliography localeCompare cits style =
     (if style = simplified_ieee then array_sort (\<lambda>a b. index_or_0 a - index_or_0 b) cits
      else array_sort (\<lambda>a b. localeCompare (Authors a) (Authors b)) cits)"

section \<open>Footnote markers\<close>

text \<open>
  Modelled from the spec: \<^verbatim>\<open>FootnoteMarkerInfo\<close> and \<^verbatim>\<open>FootnotesConfig\<close> are declared in
  \<^verbatim>\<open>interfaces.ts\<close>, which is not among the sources. A marker record has the fields that
  \<^verbatim>\<open>findAllFootnoteMarkers\<close> sets; the configuration is
  \<^verbatim>\<open>config["in-page-footnotes-settings"]\<close>: the three source flags and the marker prefix.
  \<^verbatim>\<open>Marker\<close> is \<^verbatim>\<open>match[1]\<close> of a pattern built from the prefix; it is a string, or \<open>None\<close>
  where the pattern leaves the group undefined.
\<close>

record MarkerLocation =
  BlockProperty :: property_path
  RichTextIndex :: nat
  CharStart :: nat
  CharEnd :: nat

record FootnoteMarkerInfo =
  Marker :: "string option"
  FullMarker :: string
  Location :: MarkerLocation

record FootnotesConfig =
  source_end_of_block :: bool
  source_start_of_child_blocks :: bool
  source_block_comments :: bool
  marker_prefix :: string

datatype footnote_source = end_of_block | start_of_child_blocks | block_comments

definition getActiveSource :: "FootnotesConfig \<Rightarrow> footnote_source option" where
  "getActiveSource config =
     (if source_end_of_block config then Some end_of_block
      else if source_start_of_child_blocks config then Some start_of_child_blocks
      else if source_block_comments config then Some block_comments
      else None)"

text \<open>
  The walk of \<^verbatim>\<open>findAllFootnoteMarkers\<close> for one match: the index of the run that holds
  \<open>charStart\<close> and whether that run is code; \<open>None\<close> is \<^verbatim>\<open>richTextIndex = -1\<close>.
\<close>

fun find_run :: "nat \<Rightarrow> nat \<Rightarrow> nat \<Rightarrow> RichText list \<Rightarrow> (nat \<times> bool) option" where
  "find_run charStart currentPos i [] = None"
| "find_run charStart currentPos i (richText # rest) =
     (let len = length (PlainText richText)
      in if currentPos \<le> charStart \<and> charStart < currentPos + len
         then Some (i, Code (Annotation richText))
         else find_run charStart (currentPos + len) (Suc i) rest)"

definition marker_of_match :: "RichTextLocation \<Rightarrow> RegExpExecArray \<Rightarrow> FootnoteMarkerInfo list" where
  "marker_of_match location m =
     (case find_run (match_index m) 0 0 (richTexts location) of
        None \<Rightarrow> []
      | Some (richTextIndex, inCode) \<Rightarrow>
          if inCode then []
          else [\<lparr>Marker = match_1 m, FullMarker = match_0 m,
                 Location = \<lparr>BlockProperty = property location, RichTextIndex = richTextIndex,
                             CharStart = match_index m,
                             CharEnd = match_index m + length (match_0 m)\<rparr>\<rparr>])"

text \<open>
  \<^verbatim>\<open>locations.forEach\<close> of \<^verbatim>\<open>findAllFootnoteMarkers\<close>: the loop over the matches of the pattern
  in the text of each location. A loop that has ended has left \<^verbatim>\<open>lastIndex\<close> at 0.
\<close>

fun markers_loop :: "RegExp \<Rightarrow> RichTextLocation list \<Rightarrow> FootnoteMarkerInfo list option" where
  "markers_loop pattern [] = Some []"
| "markers_loop pattern (location # rest) =
     Option.bind (exec_loop pattern (joinPlainText (richTexts location)) 0)
       (\<lambda>ms. Option.bind (markers_loop pattern rest)
          (\<lambda>more. Some (concat (map (marker_of_match location) ms) @ more)))"

text \<open>
  \<^verbatim>\<open>findAllFootnoteMarkers\<close> builds its pattern first: it throws when the host refuses the
  source, it does not return when a loop does not end, and it returns the markers
  otherwise.
\<close>

definition findAllFootnoteMarkers ::
  "RegExp_constructor \<Rightarrow> RichTextLocation list \<Rightarrow> string
     \<Rightarrow> (error + FootnoteMarkerInfo list) option" where
  "findAllFootnoteMarkers newRegExp locations markerPrefix =
     (case newRegExp (inline_marker_source markerPrefix) ''g'' of
        Inl e \<Rightarrow> Some (Inl e)
      | Inr pattern \<Rightarrow>
          (case markers_loop pattern locations of
             None \<Rightarrow> None
           | Some markers \<Rightarrow> Some (Inr markers)))"

text \<open>
  \<^verbatim>\<open>splitRichTextWithMarkers\<close>. The first span of \<^verbatim>\<open>markerPart\<close> is flagged in place; it is a
  span of \<^verbatim>\<open>result\<close> or a fresh clone, and \<^verbatim>\<open>result\<close> replaces the sequence of the location.
\<close>

definition flag_marker :: "FootnoteMarkerInfo \<Rightarrow> RichText list \<Rightarrow> RichText list" where
  "flag_marker marker markerPart =
     (case markerPart of
        [] \<Rightarrow> []
      | markerRichText # others \<Rightarrow>
          markerRichText\<lparr>IsFootnoteMarker := Some True, FootnoteRef := Marker marker\<rparr>
            # others)"

fun split_markers_loop :: "FootnoteMarkerInfo list \<Rightarrow> RichText list \<Rightarrow> RichText list" where
  "split_markers_loop [] result = result"
| "split_markers_loop (marker # rest) result =
     (let (before, after) =
            splitRichTextsAtCharPosition result (CharStart (Location marker));
          (markerPart, afterMarker) =
            splitRichTextsAtCharPosition after (length (FullMarker marker))
      in split_markers_loop rest (before @ flag_marker marker markerPart @ afterMarker))"

definition splitRichTextWithMarkers ::
  "RichTextLocation \<Rightarrow> FootnoteMarkerInfo list \<Rightarrow> RichText list" where
  "splitRichTextWithMarkers location markers =
     (let locationMarkers =
            array_sort (\<lambda>a b. int (CharStart (Location b)) - int (CharStart (Location a)))
              (filter (\<lambda>m. BlockProperty (Location m) = property location) markers)
      in if locationMarkers = [] then richTexts location
         else split_markers_loop locationMarkers (richTexts location))"

section \<open>Ranges and footnote definitions\<close>

text \<open>
  \<^verbatim>\<open>extractRichTextRange\<close>. On natural numbers \<^verbatim>\<open>Math.max(0, startChar - rtStart)\<close> is the
  truncating difference.
\<close>

fun extract_loop :: "nat \<Rightarrow> nat \<Rightarrow> nat \<Rightarrow> RichText list \<Rightarrow> RichText list \<Rightarrow> RichText list" where
  "extract_loop startChar endChar currentPos result [] = result"
| "extract_loop startChar endChar currentPos result (richText # rest) =
     (let len = length (PlainText richText);
          rtStart = currentPos;
          rtEnd = currentPos + len;
          result' =
            (if rtEnd > startChar \<and> rtStart < endChar then
               (let sliceStart = max 0 (startChar - rtStart);
                    sliceEnd = min len (endChar - rtStart);
                    slicedText = substring (PlainText richText) sliceStart sliceEnd
                in if length slicedText > 0
                   then result @ [setPlainText slicedText (cloneRichText richText)]
                   else result)
             else result)
      in extract_loop startChar endChar (currentPos + len) result' rest)"

definition trimStart_span :: "RichText \<Rightarrow> RichText" where
  "trimStart_span firstSpan =
     firstSpan\<lparr>PlainText := trimStart (PlainText firstSpan),
           Text := (case Text firstSpan of
                      Some t \<Rightarrow> Some (t\<lparr>Content := trimStart (Content t)\<rparr>)
                    | None \<Rightarrow> None)\<rparr>"

definition trimEnd_span :: "RichText \<Rightarrow> RichText" where
  "trimEnd_span lastSpan =
     lastSpan\<lparr>PlainText := trimEnd (PlainText lastSpan),
          Text := (case Text lastSpan of
                     Some t \<Rightarrow> Some (t\<lparr>Content := trimEnd (Content t)\<rparr>)
                   | None \<Rightarrow> None)\<rparr>"

text \<open>
  The trim of the first and of the last element; with one element both are the same
  object, which is trimmed at its start and then at its end.
\<close>

definition trim_ends :: "RichText list \<Rightarrow> RichText list" where
  "trim_ends result =
     (if length result > 0 then
        (let result1 = result[0 := trimStart_span (result ! 0)];
             lastIndex = length result1 - 1
         in result1[lastIndex := trimEnd_span (result1 ! lastIndex)])
      else result)"

definition extractRichTextRange :: "RichText list \<Rightarrow> nat \<Rightarrow> nat \<Rightarrow> RichText list" where
  "extractRichTextRange rts startChar endChar =
     trim_ends (extract_loop startChar endChar 0 [] rts)"

text \<open>
  The definitions found by \<^verbatim>\<open>parseFootnoteDefinitionsFromRichText\<close>. A match is pushed with
  \<^verbatim>\<open>end: -1\<close>, and the next loop sets the end of every match; the place holder is 0 here.
\<close>

record DefinitionMatch =
  d_marker :: "string option"
  d_start :: nat
  d_end :: nat
  matchIndex :: nat

definition definition_match :: "RegExpExecArray \<Rightarrow> DefinitionMatch" where
  "definition_match m =
     \<lparr>d_marker = match_1 m, d_start = match_index m + length (match_0 m), d_end = 0,
      matchIndex = match_index m\<rparr>"

fun set_ends :: "nat \<Rightarrow> DefinitionMatch list \<Rightarrow> DefinitionMatch list" where
  "set_ends textLength [] = []"
| "set_ends textLength [m] = [m\<lparr>d_end := textLength\<rparr>]"
| "set_ends textLength (m # next # rest) =
     m\<lparr>d_end := matchIndex next\<rparr> # set_ends textLength (next # rest)"

text \<open>
  A \<^verbatim>\<open>Map\<close> keeps its keys in the order of their first insertion; \<^verbatim>\<open>set\<close> on a key that is
  present replaces its value in place.
\<close>

fun map_set :: "'k \<Rightarrow> 'v \<Rightarrow> ('k \<times> 'v) list \<Rightarrow> ('k \<times> 'v) list" where
  "map_set k v [] = [(k, v)]"
| "map_set k v ((k', v') # rest) =
     (if k = k' then (k, v) # rest else (k', v') # map_set k v rest)"

definition add_definition ::
  "RichText list \<Rightarrow> DefinitionMatch \<Rightarrow> (string option \<times> RichText list) list
     \<Rightarrow> (string option \<times> RichText list) list" where
  "add_definition definitionsRichTexts m definitions =
     (let contentRichTexts = extractRichTextRange definitionsRichTexts (d_start m) (d_end m)
      in if length contentRichTexts = 0 \<or> trim (joinPlainText contentRichTexts) = []
         then definitions
         else map_set (d_marker m) contentRichTexts definitions)"

text \<open>
  \<^verbatim>\<open>parseFootnoteDefinitionsFromRichText\<close> builds its pattern, runs the loop over its matches
  in the text of the definitions, and adds the definitions to an empty map.
\<close>

definition parseFootnoteDefinitionsFromRichText ::
  "RegExp_constructor \<Rightarrow> RichText list \<Rightarrow> string \<Rightarrow> string
     \<Rightarrow> (error + (string option \<times> RichText list) list) option" where
  "parseFootnoteDefinitionsFromRichText newRegExp definitionsRichTexts markerPrefix definitionsText =
     (case newRegExp (definition_source markerPrefix) ''g'' of
        Inl e \<Rightarrow> Some (Inl e)
      | Inr pattern \<Rightarrow>
          (case exec_loop pattern definitionsText 0 of
             None \<Rightarrow> None
           | Some ms \<Rightarrow>
               (let matches = set_ends (length definitionsText) (map definition_match ms)
                in Some (Inr (fold (add_definition definitionsRichTexts) matches [])))))"

text \<open>\<^verbatim>\<open>fullText.match(/\n\n\[\^/)\<close>: the index of the first occurrence of the literal.\<close>

fun index_of :: "string \<Rightarrow> nat \<Rightarrow> string \<Rightarrow> nat option" where
  "index_of lit pos [] = None"
| "index_of lit pos (c # cs) =
     (case strip_prefix lit (c # cs) of
        Some r \<Rightarrow> Some pos
      | None \<Rightarrow> index_of lit (Suc pos) cs)"

text \<open>\<^verbatim>\<open>cachedFullText || joinPlainText(richTexts)\<close>: the empty string counts as absent.\<close>

definition extractFootnoteDefinitionsFromRichText ::
  "RegExp_constructor \<Rightarrow> RichText list \<Rightarrow> string \<Rightarrow> string option
     \<Rightarrow> (error + RichText list \<times> (string option \<times> RichText list) list) option" where
  "extractFootnoteDefinitionsFromRichText newRegExp rts markerPrefix cachedFullText =
     (let fullText = (case cachedFullText of
                        Some t \<Rightarrow> if t \<noteq> [] then t else joinPlainText rts
                      | None \<Rightarrow> joinPlainText rts)
      in case index_of ''\<newline>\<newline>[^'' 0 fullText of
           None \<Rightarrow> Some (Inr (rts, []))
         | Some splitPoint \<Rightarrow>
             (let (mainContent, definitionsSection) =
                    splitRichTextsAtCharPosition rts splitPoint;
                  definitionsText = drop splitPoint fullText
              in case parseFootnoteDefinitionsFromRichText newRegExp definitionsSection
                        markerPrefix definitionsText of
                   None \<Rightarrow> None
                 | Some (Inl e) \<Rightarrow> Some (Inl e)
                 | Some (Inr footnoteDefinitions) \<Rightarrow>
                     Some (Inr (mainContent, footnoteDefinitions))))"

section \<open>Footnotes at the end of a block\<close>

text \<open>
  Modelled from the spec: the types \<^verbatim>\<open>Footnote\<close>, \<^verbatim>\<open>FootnoteExtractionResult\<close> and
  \<^verbatim>\<open>CommentAttachment\<close> are declared in \<^verbatim>\<open>interfaces.ts\<close>, which is not among the sources; the
  records have the fields that the code sets (spec, section 3: a footnote has its marker, its
  full marker, a content that is rich text, blocks, or a comment with optional attachments,
  and a source location).
\<close>

record CommentAttachment =
  Category :: string
  AttachmentUrl :: string
  OptimizedUrl :: string
  AttachmentName :: string
  ExpiryTime :: string

datatype FootnoteContent =
    rich_text "RichText list"
  | blocks "Block list"
  | comment "RichText list" "CommentAttachment list option"

datatype SourceLocation = content_location | caption_location | table_location | comment_location

text \<open>
  A footnote. Its fields \<^verbatim>\<open>Marker\<close>, \<^verbatim>\<open>FullMarker\<close> and \<^verbatim>\<open>Content\<close> share their names with
  fields of the records above and carry the prefix \<open>Fn\<close> here. The marker is \<^verbatim>\<open>match[1]\<close> of
  a pattern, as the marker of a marker record is.
\<close>

record Footnote =
  FnMarker :: "string option"
  FnFullMarker :: string
  FnContent :: FootnoteContent
  FnSourceLocation :: SourceLocation

record FootnoteExtractionResult =
  footnotes :: "Footnote list"
  hasProcessedRichTexts :: bool
  hasProcessedChildren :: bool

definition unprocessed :: FootnoteExtractionResult where
  "unprocessed = \<lparr>footnotes = [], hasProcessedRichTexts = False, hasProcessedChildren = False\<rparr>"

text \<open>
  \<^verbatim>\<open>property.includes("Caption") ? "caption" : property.includes("Table") ? "table" : "content"\<close>.
\<close>

fun source_location_of :: "property_path \<Rightarrow> SourceLocation" where
  "source_location_of (CaptionOf k) = caption_location"
| "source_location_of (TableCell r c) = table_location"
| "source_location_of (RichTextsOf k) = content_location"

definition definition_footnote ::
  "string \<Rightarrow> RichTextLocation \<Rightarrow> string option \<times> RichText list \<Rightarrow> Footnote" where
  "definition_footnote markerPrefix location d =
     \<lparr>FnMarker = fst d,
      FnFullMarker = ''[^'' @ markerPrefix @ template_text (fst d) @ '']'',
      FnContent = rich_text (snd d),
      FnSourceLocation = source_location_of (property location)\<rparr>"

text \<open>
  The loop \<^verbatim>\<open>locations.forEach\<close> of \<^verbatim>\<open>extractEndOfBlockFootnotes\<close>, with the block and the
  footnotes as state. The cached text of a location is the joined text of its sequence.
  When the pattern of the definitions cannot be built the loop is left by the exception,
  and the block is as the rounds before have written it.
\<close>

fun end_of_block_loop ::
  "RegExp_constructor \<Rightarrow> string \<Rightarrow> FootnoteMarkerInfo list \<Rightarrow> RichTextLocation list
     \<Rightarrow> Block \<times> Footnote list \<Rightarrow> (Block \<times> (error + Footnote list)) option" where
  "end_of_block_loop newRegExp markerPrefix markers [] (block, fns) = Some (block, Inr fns)"
| "end_of_block_loop newRegExp markerPrefix markers (location # rest) (block, fns) =
     (let cachedText = joinPlainText (richTexts location)
      in case extractFootnoteDefinitionsFromRichText newRegExp (richTexts location) markerPrefix
                (Some cachedText) of
           None \<Rightarrow> None
         | Some (Inl e) \<Rightarrow> Some (block, Inl e)
         | Some (Inr (cleanedRichTexts, footnoteDefinitions)) \<Rightarrow>
             (let fns' = fns @ map (definition_footnote markerPrefix location)
                            (filter (\<lambda>d. \<exists>m \<in> set markers. Marker m = fst d)
                               footnoteDefinitions);
                  block1 = setter (property location) cleanedRichTexts block;
                  splitRichTexts =
                    splitRichTextWithMarkers (location\<lparr>richTexts := cleanedRichTexts\<rparr>) markers;
                  block2 = setter (property location) splitRichTexts block1
              in end_of_block_loop newRegExp markerPrefix markers rest (block2, fns')))"

text \<open>
  \<^verbatim>\<open>extractEndOfBlockFootnotes\<close>. The result is the block as the function leaves it, with
  the record it returns or the exception it throws; \<open>None\<close> when it does not return.
\<close>

definition extractEndOfBlockFootnotes ::
  "RegExp_constructor \<Rightarrow> Block \<Rightarrow> FootnotesConfig
     \<Rightarrow> (Block \<times> (error + FootnoteExtractionResult)) option" where
  "extractEndOfBlockFootnotes newRegExp block config =
     (let locations = getAllRichTextLocations block;
          markerPrefix = marker_prefix config
      in case findAllFootnoteMarkers newRegExp locations markerPrefix of
           None \<Rightarrow> None
         | Some (Inl e) \<Rightarrow> Some (block, Inl e)
         | Some (Inr markers) \<Rightarrow>
             if length markers = 0 then Some (block, Inr unprocessed)
             else
               (case end_of_block_loop newRegExp markerPrefix markers locations (block, []) of
                  None \<Rightarrow> None
                | Some (block', Inl e) \<Rightarrow> Some (block', Inl e)
                | Some (block', Inr fns) \<Rightarrow>
                    Some (block', Inr \<lparr>footnotes = fns, hasProcessedRichTexts = True,
                                       hasProcessedChildren = False\<rparr>)))"

section \<open>Footnotes at the start of the child blocks\<close>

fun getChildrenFromBlock :: "Block \<Rightarrow> Block list option" where
  "getChildrenFromBlock (TextBlock i k rts ch) = ch"
| "getChildrenFromBlock (SyncedBlock i ch) = ch"
| "getChildrenFromBlock block = None"

fun setChildrenInBlock :: "Block \<Rightarrow> Block list \<Rightarrow> Block" where
  "setChildrenInBlock (TextBlock i k rts ch) children = TextBlock i k rts (Some children)"
| "setChildrenInBlock (SyncedBlock i ch) children = SyncedBlock i (Some children)"
| "setChildrenInBlock block children = block"

text \<open>
  \<^verbatim>\<open>removeMarkerPrefix\<close>: whole spans are spliced out while \<open>remaining\<close> covers them; the
  span that \<open>remaining\<close> ends in is replaced by a clone cut at \<open>remaining\<close>.
\<close>

definition truncate_span :: "nat \<Rightarrow> RichText \<Rightarrow> RichText" where
  "truncate_span remaining richText =
     (let truncated = cloneRichText richText
      in truncated\<lparr>Text := (case Text truncated of
                                Some t \<Rightarrow> Some (t\<lparr>Content := drop remaining (Content t)\<rparr>)
                              | None \<Rightarrow> None),
                    PlainText := drop remaining (PlainText truncated)\<rparr>)"

fun remove_prefix_loop :: "nat \<Rightarrow> RichText list \<Rightarrow> RichText list" where
  "remove_prefix_loop remaining [] = []"
| "remove_prefix_loop remaining (richText # rest) =
     (if remaining > 0 then
        (let len = length (PlainText richText)
         in if len \<le> remaining then remove_prefix_loop (remaining - len) rest
            else truncate_span remaining richText # rest)
      else richText # rest)"

definition removeMarkerPrefix :: "RichText list \<Rightarrow> nat \<Rightarrow> RichText list" where
  "removeMarkerPrefix rts prefixLength =
     (if length rts = 0 \<or> prefixLength = 0 then rts
      else remove_prefix_loop prefixLength rts)"

text \<open>\<^verbatim>\<open>pattern.lastIndex = 0; pattern.exec(text)\<close>: the first match.\<close>

definition exec_first :: "matcher \<Rightarrow> string \<Rightarrow> RegExpMatch option" where
  "exec_first pattern s = (case exec_all pattern None 0 0 s of [] \<Rightarrow> None | m # ms \<Rightarrow> Some m)"

text \<open>
  One round of \<^verbatim>\<open>childrenToCheck.forEach\<close>: the child after the round (its first location is
  rewritten in place when it matches) and the footnote made of it, if any. The footnote
  holds the child itself, so it holds the rewritten child.
\<close>

definition scan_child :: "string \<Rightarrow> Block \<Rightarrow> Block \<times> Footnote option" where
  "scan_child markerPrefix child =
     (case getAllRichTextLocations child of
        [] \<Rightarrow> (child, None)
      | location0 # others \<Rightarrow>
          (let blockText = joinPlainText (richTexts location0)
           in case exec_first (createContentPattern markerPrefix) blockText of
                None \<Rightarrow> (child, None)
              | Some m \<Rightarrow>
                  (let marker = group1 m;
                       cleanedRichTexts = removeMarkerPrefix (richTexts location0) (length (whole m));
                       child' = setter (property location0) cleanedRichTexts child
                   in (child',
                       Some \<lparr>FnMarker = Some marker,
                             FnFullMarker = ''[^'' @ markerPrefix @ marker @ '']'',
                             FnContent = blocks [child'],
                             FnSourceLocation = content_location\<rparr>))))"

text \<open>
  \<^verbatim>\<open>extractStartOfChildBlocksFootnotes\<close>. \<open>scanned\<close> is the result of the rounds over
  \<^verbatim>\<open>childrenToCheck\<close>; \<open>children'\<close> is the array \<^verbatim>\<open>children\<close> as it is after the rounds, which is
  what \<^verbatim>\<open>children.slice(markerCount)\<close> reads. The list \<^verbatim>\<open>footnoteBlockIndices\<close> is filled and
  never read; it is left out.
\<close>

definition extractStartOfChildBlocksFootnotes ::
  "RegExp_constructor \<Rightarrow> Block \<Rightarrow> FootnotesConfig
     \<Rightarrow> (Block \<times> (error + FootnoteExtractionResult)) option" where
  "extractStartOfChildBlocksFootnotes newRegExp block config =
     (let locations = getAllRichTextLocations block;
          markerPrefix = marker_prefix config
      in case findAllFootnoteMarkers newRegExp locations markerPrefix of
           None \<Rightarrow> None
         | Some (Inl e) \<Rightarrow> Some (block, Inl e)
         | Some (Inr markers) \<Rightarrow>
             if length markers = 0 then Some (block, Inr unprocessed)
             else
               (let markerCount = length markers;
                    children = getChildrenFromBlock block;
                    childrenToCheck =
                      (case children of
                         Some cs \<Rightarrow> take (max markerCount (length cs)) cs
                       | None \<Rightarrow> []);
                    scanned = map (scan_child markerPrefix) childrenToCheck;
                    fns = concat (map (\<lambda>(child', f). case f of Some fn \<Rightarrow> [fn] | None \<Rightarrow> [])
                                    scanned);
                    remainingChildren =
                      concat (map (\<lambda>(child', f). case f of Some fn \<Rightarrow> [] | None \<Rightarrow> [child'])
                                scanned);
                    remainingChildren' =
                      (case children of
                         Some cs \<Rightarrow>
                           (let children' = map fst scanned @ drop (length childrenToCheck) cs
                            in if length cs > markerCount
                               then remainingChildren @ drop markerCount children'
                               else remainingChildren)
                       | None \<Rightarrow> remainingChildren);
                    block1 = setChildrenInBlock block remainingChildren';
                    block2 = fold (\<lambda>location b.
                                     setter (property location)
                                       (splitRichTextWithMarkers location markers) b)
                               locations block1
                in Some (block2, Inr \<lparr>footnotes = fns, hasProcessedRichTexts = True,
                                       hasProcessedChildren = True\<rparr>)))"

section \<open>Footnotes in the comments of a block\<close>

text \<open>
  The comments provider is a collaborator: \<^verbatim>\<open>notionClient.comments.list({block_id})\<close>
  answers with the comments of the block or fails, with a permission error or another
  one. A comment is taken as its rich text after \<^verbatim>\<open>convertNotionRichTextToOurFormat\<close> (whose
  first span has the plain text that the pattern is tested on) and its attachments after
  the download loop; the conversion of the wire format and the downloads are outside the
  model. \<open>None\<close> is the missing client.
\<close>

datatype comments_failure = permission_denied | other_failure

record Comment =
  comment_rich_text :: "RichText list"
  comment_attachments :: "CommentAttachment list"

type_synonym comments_client = "string \<Rightarrow> comments_failure + Comment list"

text \<open>
  \<^verbatim>\<open>pattern.exec(text)\<close> of a global pattern whose \<^verbatim>\<open>lastIndex\<close> is kept between calls: the
  match and the new \<^verbatim>\<open>lastIndex\<close>.
\<close>

definition exec_from :: "matcher \<Rightarrow> nat \<Rightarrow> string \<Rightarrow> RegExpMatch option \<times> nat" where
  "exec_from pattern lastIndex s =
     (if lastIndex > length s then (None, 0)
      else case exec_all pattern (if lastIndex = 0 then None else Some (s ! (lastIndex - 1)))
                  lastIndex 0 (drop lastIndex s) of
             [] \<Rightarrow> (None, 0)
           | m # ms \<Rightarrow> (Some m, index m + length (whole m)))"

fun comments_loop :: "string \<Rightarrow> Comment list \<Rightarrow> Footnote list \<times> nat \<Rightarrow> Footnote list \<times> nat" where
  "comments_loop markerPrefix [] state = state"
| "comments_loop markerPrefix (c # rest) (fns, lastIndex) =
     (if length (comment_rich_text c) = 0 then comments_loop markerPrefix rest (fns, lastIndex)
      else
        (let firstText = PlainText (hd (comment_rich_text c))
         in case exec_from (createContentPattern markerPrefix) lastIndex firstText of
              (None, lastIndex') \<Rightarrow> comments_loop markerPrefix rest (fns, lastIndex')
            | (Some m, lastIndex') \<Rightarrow>
                (let marker = group1 m;
                     cleanedRichTexts = removeMarkerPrefix (comment_rich_text c) (length (whole m));
                     attachments = comment_attachments c;
                     fn = \<lparr>FnMarker = Some marker,
                           FnFullMarker = ''[^'' @ markerPrefix @ marker @ '']'',
                           FnContent = comment cleanedRichTexts
                                         (if length attachments > 0 then Some attachments else None),
                           FnSourceLocation = comment_location\<rparr>
                 in comments_loop markerPrefix rest (fns @ [fn], lastIndex'))))"

text \<open>
  \<^verbatim>\<open>extractBlockCommentsFootnotes\<close>. The third component of the result is the list of the
  requests made to the comments provider (the block ids asked for). The markers are looked
  for before the \<^verbatim>\<open>try\<close> block, so an exception of the marker finder is not caught.
\<close>

definition extractBlockCommentsFootnotes ::
  "RegExp_constructor \<Rightarrow> Block \<Rightarrow> FootnotesConfig \<Rightarrow> comments_client option
     \<Rightarrow> (Block \<times> (error + FootnoteExtractionResult) \<times> string list) option" where
  "extractBlockCommentsFootnotes newRegExp block config notionClient =
     (let locations = getAllRichTextLocations block;
          markerPrefix = marker_prefix config
      in case findAllFootnoteMarkers newRegExp locations markerPrefix of
           None \<Rightarrow> None
         | Some (Inl e) \<Rightarrow> Some (block, Inl e, [])
         | Some (Inr markers) \<Rightarrow>
             if length markers = 0 then Some (block, Inr unprocessed, [])
             else case notionClient of
               None \<Rightarrow> Some (block, Inr unprocessed, [])
             | Some client \<Rightarrow>
                 (case client (Id block) of
                    Inl failure \<Rightarrow> Some (block, Inr unprocessed, [Id block])
                  | Inr comments \<Rightarrow>
                      (let (fns, lastIndex) = comments_loop markerPrefix comments ([], 0);
                           block' = fold (\<lambda>location b.
                                            setter (property location)
                                              (splitRichTextWithMarkers location markers) b)
                                      locations block
                       in Some (block', Inr \<lparr>footnotes = fns, hasProcessedRichTexts = True,
                                              hasProcessedChildren = False\<rparr>, [Id block]))))"

text \<open>\<^verbatim>\<open>extractFootnotesFromBlock\<close>: the function of the active source, if there is one.\<close>

definition extractFootnotesFromBlock ::
  "RegExp_constructor \<Rightarrow> Block \<Rightarrow> FootnotesConfig \<Rightarrow> comments_client option
     \<Rightarrow> (Block \<times> (error + FootnoteExtractionResult) \<times> string list) option" where
  "extractFootnotesFromBlock newRegExp block config notionClient =
     (case getActiveSource config of
        Some end_of_block \<Rightarrow>
          (case extractEndOfBlockFootnotes newRegExp block config of
             None \<Rightarrow> None
           | Some (block', r) \<Rightarrow> Some (block', r, []))
      | Some start_of_child_blocks \<Rightarrow>
          (case extractStartOfChildBlocksFootnotes newRegExp block config of
             None \<Rightarrow> None
           | Some (block', r) \<Rightarrow> Some (block', r, []))
      | Some block_comments \<Rightarrow> extractBlockCommentsFootnotes newRegExp block config notionClient
      | None \<Rightarrow> Some (block, Inr unprocessed, []))"

section \<open>Objects in a store: what a clone shares\<close>

text \<open>
  The records above are values. In the source a span is an object whose fields \<^verbatim>\<open>Text\<close>,
  \<^verbatim>\<open>Annotation\<close>, \<^verbatim>\<open>Equation\<close>, \<^verbatim>\<open>Mention\<close> and \<^verbatim>\<open>InternalHref\<close> refer to other objects, and a
  \<^verbatim>\<open>Text\<close> refers to its \<^verbatim>\<open>Link\<close>, a \<^verbatim>\<open>Mention\<close> to its \<^verbatim>\<open>Page\<close>, \<^verbatim>\<open>LinkMention\<close> and
  \<^verbatim>\<open>CustomEmoji\<close> (as \<^verbatim>\<open>convertNotionRichTextToOurFormat\<close> builds them). Whether a write through
  the clone is seen through the original depends on which objects the two share, so
  \<^verbatim>\<open>cloneRichText\<close> is modelled a second time on a store: a list of objects, an address being
  an index, a new object being put at the end.
\<close>

type_synonym addr = nat

record RichTextFields =
  o_PlainText :: string
  o_Text :: "addr option"
  o_Annotation :: addr
  o_Equation :: "addr option"
  o_Mention :: "addr option"
  o_InternalHref :: "addr option"
  o_Href :: "string option"
  o_IsFootnoteMarker :: "bool option"
  o_FootnoteRef :: "string option"
  o_IsCitationMarker :: "bool option"
  o_CitationRef :: "string option"

record TextFields =
  o_Content :: string
  o_Link :: "addr option"

record MentionFields =
  o_MentionType :: string
  o_Page :: "addr option"
  o_DateStr :: "string option"
  o_LinkMention :: "addr option"
  o_CustomEmoji :: "addr option"

datatype object =
    RichTextObject RichTextFields
  | TextObject TextFields
  | LinkObject Link
  | AnnotationObject Annotation
  | EquationObject Equation
  | MentionObject MentionFields
  | InterlinkedContentObject InterlinkedContent
  | LinkMentionObject LinkMention
  | CustomEmojiObject CustomEmoji
  | InternalHrefObject InternalHref

type_synonym store = "object list"

definition lookup :: "store \<Rightarrow> addr \<Rightarrow> object option" where
  "lookup s a = (if a < length s then Some (s ! a) else None)"

definition alloc :: "store \<Rightarrow> object \<Rightarrow> store \<times> addr" where
  "alloc s obj = (s @ [obj], length s)"

text \<open>
  \<^verbatim>\<open>x ? { ...x } : undefined\<close>: a new object with the fields of \<^verbatim>\<open>x\<close>. The fields are copied as
  they are, so a field that refers to an object refers to the same object in the copy.
\<close>

definition spread :: "store \<Rightarrow> addr option \<Rightarrow> store \<times> addr option" where
  "spread s r =
     (case r of
        None \<Rightarrow> (s, None)
      | Some a \<Rightarrow>
          (case lookup s a of
             None \<Rightarrow> (s, None)
           | Some obj \<Rightarrow> (let (s', a') = alloc s obj in (s', Some a'))))"

text \<open>
  \<^verbatim>\<open>richText.Text ? { ...richText.Text, Link: richText.Text.Link ? { ...richText.Text.Link }
  : undefined } : undefined\<close>.
\<close>

definition spread_text :: "store \<Rightarrow> addr option \<Rightarrow> store \<times> addr option" where
  "spread_text s r =
     (case r of
        None \<Rightarrow> (s, None)
      | Some a \<Rightarrow>
          (case lookup s a of
             Some (TextObject t) \<Rightarrow>
               (let (s1, link') = spread s (o_Link t);
                    (s2, a') = alloc s1 (TextObject (t\<lparr>o_Link := link'\<rparr>))
                in (s2, Some a'))
           | _ \<Rightarrow> (s, None)))"

text \<open>
  \<^verbatim>\<open>cloneRichText\<close> on the store: the new store and the address of the clone; \<open>None\<close> when the
  address is not that of a span.
\<close>

definition cloneRichText_store :: "store \<Rightarrow> addr \<Rightarrow> (store \<times> addr) option" where
  "cloneRichText_store s a =
     (case lookup s a of
        Some (RichTextObject r) \<Rightarrow>
          (let (s1, text') = spread_text s (o_Text r);
               (s2, annotation') = spread s1 (Some (o_Annotation r));
               (s3, equation') = spread s2 (o_Equation r);
               (s4, mention') = spread s3 (o_Mention r);
               (s5, internalHref') = spread s4 (o_InternalHref r)
           in case annotation' of
                None \<Rightarrow> None
              | Some an \<Rightarrow>
                  Some (alloc s5 (RichTextObject
                          (r\<lparr>o_Text := text', o_Annotation := an, o_Equation := equation',
                             o_Mention := mention', o_InternalHref := internalHref'\<rparr>))))
      | _ \<Rightarrow> None)"

text \<open>The value of a span in a store: what is read through its address, field by field.\<close>

definition read_optional ::
  "(store \<Rightarrow> addr \<Rightarrow> 'a option) \<Rightarrow> store \<Rightarrow> addr option \<Rightarrow> 'a option option" where
  "read_optional rd s r =
     (case r of
        None \<Rightarrow> Some None
      | Some a \<Rightarrow> (case rd s a of Some v \<Rightarrow> Some (Some v) | None \<Rightarrow> None))"

definition read_link :: "store \<Rightarrow> addr \<Rightarrow> Link option" where
  "read_link s a = (case lookup s a of Some (LinkObject l) \<Rightarrow> Some l | _ \<Rightarrow> None)"

definition read_annotation :: "store \<Rightarrow> addr \<Rightarrow> Annotation option" where
  "read_annotation s a = (case lookup s a of Some (AnnotationObject x) \<Rightarrow> Some x | _ \<Rightarrow> None)"

definition read_equation :: "store \<Rightarrow> addr \<Rightarrow> Equation option" where
  "read_equation s a = (case lookup s a of Some (EquationObject x) \<Rightarrow> Some x | _ \<Rightarrow> None)"

definition read_page :: "store \<Rightarrow> addr \<Rightarrow> InterlinkedContent option" where
  "read_page s a =
     (case lookup s a of Some (InterlinkedContentObject x) \<Rightarrow> Some x | _ \<Rightarrow> None)"

definition read_link_mention :: "store \<Rightarrow> addr \<Rightarrow> LinkMention option" where
  "read_link_mention s a = (case lookup s a of Some (LinkMentionObject x) \<Rightarrow> Some x | _ \<Rightarrow> None)"

definition read_custom_emoji :: "store \<Rightarrow> addr \<Rightarrow> CustomEmoji option" where
  "read_custom_emoji s a = (case lookup s a of Some (CustomEmojiObject x) \<Rightarrow> Some x | _ \<Rightarrow> None)"

definition read_internal_href :: "store \<Rightarrow> addr \<Rightarrow> InternalHref option" where
  "read_internal_href s a =
     (case lookup s a of Some (InternalHrefObject x) \<Rightarrow> Some x | _ \<Rightarrow> None)"

definition read_text :: "store \<Rightarrow> addr \<Rightarrow> Text option" where
  "read_text s a =
     (case lookup s a of
        Some (TextObject t) \<Rightarrow>
          (case read_optional read_link s (o_Link t) of
             Some l \<Rightarrow> Some \<lparr>Content = o_Content t, Link = l\<rparr>
           | None \<Rightarrow> None)
      | _ \<Rightarrow> None)"

definition read_mention :: "store \<Rightarrow> addr \<Rightarrow> Mention option" where
  "read_mention s a =
     (case lookup s a of
        Some (MentionObject m) \<Rightarrow>
          (case (read_optional read_page s (o_Page m),
                 read_optional read_link_mention s (o_LinkMention m),
                 read_optional read_custom_emoji s (o_CustomEmoji m)) of
             (Some p, Some l, Some e) \<Rightarrow>
               Some \<lparr>MentionType = o_MentionType m, Page = p, DateStr = o_DateStr m,
                     LinkMention = l, CustomEmoji = e\<rparr>
           | _ \<Rightarrow> None)
      | _ \<Rightarrow> None)"

definition read_span :: "store \<Rightarrow> addr \<Rightarrow> RichText option" where
  "read_span s a =
     (case lookup s a of
        Some (RichTextObject r) \<Rightarrow>
          (case (read_optional read_text s (o_Text r),
                 read_annotation s (o_Annotation r),
                 read_optional read_equation s (o_Equation r),
                 read_optional read_mention s (o_Mention r),
                 read_optional read_internal_href s (o_InternalHref r)) of
             (Some t, Some an, Some e, Some m, Some h) \<Rightarrow>
               Some \<lparr>PlainText = o_PlainText r, Text = t, Annotation = an, Equation = e,
                     Mention = m, InternalHref = h, Href = o_Href r,
                     IsFootnoteMarker = o_IsFootnoteMarker r, FootnoteRef = o_FootnoteRef r,
                     IsCitationMarker = o_IsCitationMarker r, CitationRef = o_CitationRef r\<rparr>
           | _ \<Rightarrow> None)
      | _ \<Rightarrow> None)"

text \<open>
  Two writes through a span: \<^verbatim>\<open>span.Mention.Page.PageId = v\<close> and
  \<^verbatim>\<open>span.Text.Link.Url = v\<close>. \<open>None\<close> is the error of a write through a missing object.
\<close>

definition assign_Mention_Page_PageId :: "store \<Rightarrow> addr \<Rightarrow> string \<Rightarrow> store option" where
  "assign_Mention_Page_PageId s a v =
     (case lookup s a of
        Some (RichTextObject r) \<Rightarrow>
          (case o_Mention r of
             None \<Rightarrow> None
           | Some ma \<Rightarrow>
               (case lookup s ma of
                  Some (MentionObject m) \<Rightarrow>
                    (case o_Page m of
                       None \<Rightarrow> None
                     | Some pa \<Rightarrow>
                         (case lookup s pa of
                            Some (InterlinkedContentObject p) \<Rightarrow>
                              Some (s[pa := InterlinkedContentObject (p\<lparr>PageId := v\<rparr>)])
                          | _ \<Rightarrow> None))
                | _ \<Rightarrow> None))
      | _ \<Rightarrow> None)"

definition assign_Text_Link_Url :: "store \<Rightarrow> addr \<Rightarrow> string \<Rightarrow> store option" where
  "assign_Text_Link_Url s a v =
     (case lookup s a of
        Some (RichTextObject r) \<Rightarrow>
          (case o_Text r of
             None \<Rightarrow> None
           | Some ta \<Rightarrow>
               (case lookup s ta of
                  Some (TextObject t) \<Rightarrow>
                    (case o_Link t of
                       None \<Rightarrow> None
                     | Some la \<Rightarrow>
                         (case lookup s la of
                            Some (LinkObject l) \<Rightarrow> Some (s[la := LinkObject (l\<lparr>Url := v\<rparr>)])
                          | _ \<Rightarrow> None))
                | _ \<Rightarrow> None))
      | _ \<Rightarrow> None)"

text \<open>
  The experiment of the claim: clone the span at \<open>a\<close>, write through the clone, and read
  the original before the write, the clone before the write, and the original after it.
\<close>

definition clone_then_write ::
  "(store \<Rightarrow> addr \<Rightarrow> string \<Rightarrow> store option) \<Rightarrow> store \<Rightarrow> addr \<Rightarrow> string
     \<Rightarrow> (RichText option \<times> RichText option \<times> RichText option) option" where
  "clone_then_write assign s a v =
     (case cloneRichText_store s a of
        None \<Rightarrow> None
      | Some (s1, c) \<Rightarrow>
          (case assign s1 c v of
             None \<Rightarrow> None
           | Some s2 \<Rightarrow> Some (read_span s1 a, read_span s1 c, read_span s2 a)))"

section \<open>Notions used in the statements and proofs\<close>

text \<open>A match of the matches list lies in the text, and its key and text are those of the regex match.\<close>

definition match_in :: "string \<Rightarrow> CitationMatch \<Rightarrow> bool" where
  "match_in text m \<longleftrightarrow>
     m_end m = m_start m + length (fullMatch m) \<and> m_start m < length text
     \<and> take (length (fullMatch m)) (drop (m_start m) text) = fullMatch m"

text \<open>
  For the proofs, the locations of a block are described by the paths its shape has and by
  the sequence found at a path.
\<close>

fun get_at :: "property_path \<Rightarrow> Block \<Rightarrow> RichText list" where
  "get_at (RichTextsOf k) (TextBlock i k' rts ch) = (if k = k' then rts else [])"
| "get_at (CaptionOf k) (CaptionBlock i k' cap) = (if k = k' then cap else [])"
| "get_at (TableCell r c) (TableBlock i rows) =
     (if r < length rows \<and> c < length (rows ! r) then rows ! r ! c else [])"
| "get_at p block = []"

definition table_paths :: "RichText list list list \<Rightarrow> property_path list" where
  "table_paths rows = concat (map (\<lambda>r. map (TableCell r) [0..<length (rows ! r)]) [0..<length rows])"

fun all_paths :: "Block \<Rightarrow> property_path list" where
  "all_paths (TextBlock i k rts ch) = [RichTextsOf k]"
| "all_paths (CaptionBlock i k cap) = [CaptionOf k]"
| "all_paths (TableBlock i rows) = table_paths rows"
| "all_paths (SyncedBlock i ch) = []"
| "all_paths (OtherBlock i) = []"

text \<open>What the loop over the locations writes at one location, as a function of its sequence.\<close>

definition process_location ::
  "matcher \<Rightarrow> (string \<rightharpoonup> ParsedCitationEntry) \<Rightarrow> bibliography_style \<Rightarrow> RichText list
     \<Rightarrow> RichText list" where
  "process_location pattern bibEntries style rts =
     (let matches = find_citation_matches pattern rts
      in if matches = [] then rts
         else fst (replace_loop bibEntries style (rev matches) (rts, [])))"

text \<open>
  A span \<open>s\<close> comes from a span \<open>s0\<close> when it is \<open>s0\<close> or a clone of it with another text:
  the splits produce nothing else.
\<close>

definition span_of :: "RichText \<Rightarrow> RichText \<Rightarrow> bool" where
  "span_of s0 s \<longleftrightarrow> s = s0 \<or> (\<exists>t. s = setPlainText t s0)"

text \<open>The marker span of a match sits in a sequence at the offset of the match.\<close>

definition placed :: "RichText list \<Rightarrow> CitationMatch \<Rightarrow> bool" where
  "placed rts m \<longleftrightarrow>
     (\<exists>pre post. rts = pre @ markerText m # post \<and> length (joinPlainText pre) = m_start m)"

text \<open>The \<open>i\<close>-th run of a sequence holds the character at position \<open>p\<close> of the joined text.\<close>

definition run_holds :: "RichText list \<Rightarrow> nat \<Rightarrow> nat \<Rightarrow> bool" where
  "run_holds rts i p \<longleftrightarrow>
     i < length rts \<and> length (joinPlainText (take i rts)) \<le> p
     \<and> p < length (joinPlainText (take (Suc i) rts))"

text \<open>A footnote made of a definition: its key has an inline marker and its trimmed content is not empty.\<close>

definition footnote_of_definition :: "FootnoteMarkerInfo list \<Rightarrow> Footnote \<Rightarrow> bool" where
  "footnote_of_definition markers f \<longleftrightarrow>
     (\<exists>m \<in> set markers. Marker m = FnMarker f)
     \<and> (\<exists>c. FnContent f = rich_text c \<and> c \<noteq> [] \<and> trim (joinPlainText c) \<noteq> [])"

text \<open>
  A consistent comparator orders its arguments totally up to ties: exchanging the
  arguments exchanges the sign, and \<open>\<le> 0\<close> is transitive. This is what the comparator of
  a sort has to satisfy for the result of the sort to be determined.
\<close>

definition consistent_comparator :: "('a \<Rightarrow> 'a \<Rightarrow> int) \<Rightarrow> bool" where
  "consistent_comparator compare \<longleftrightarrow>
     (\<forall>a b. (compare a b < 0) = (compare b a > 0))
     \<and> (\<forall>a b c. compare a b \<le> 0 \<longrightarrow> compare b c \<le> 0 \<longrightarrow> compare a c \<le> 0)"

text \<open>
  The characters of a sequence, each with a property of the span that holds it; and the
  properties of a span other than its text.
\<close>

definition chars_with :: "(RichText \<Rightarrow> 'a) \<Rightarrow> RichText list \<Rightarrow> (char \<times> 'a) list" where
  "chars_with f rts = concat (map (\<lambda>s. map (\<lambda>c. (c, f s)) (PlainText s)) rts)"

definition span_format :: "RichText \<Rightarrow> RichText" where
  "span_format s =
     s\<lparr>PlainText := [],
       Text := (case Text s of Some t \<Rightarrow> Some (t\<lparr>Content := []\<rparr>) | None \<Rightarrow> None)\<rparr>"

text \<open>The character at position \<open>p\<close> of the joined text lies in a run whose Code annotation is true.\<close>

definition code_at :: "RichText list \<Rightarrow> nat \<Rightarrow> bool" where
  "code_at rts p \<longleftrightarrow>
     p < length (joinPlainText rts) \<and> Code (snd (chars_with Annotation rts ! p))"

text \<open>
  \<^verbatim>\<open>exec\<close> looks for a match at or after \<^verbatim>\<open>lastIndex\<close>: the match that a pattern answers does
  not start before it.
\<close>

definition exec_advances :: "RegExp \<Rightarrow> bool" where
  "exec_advances pattern \<longleftrightarrow>
     (\<forall>s lastIndex m. pattern s lastIndex = Some m \<longrightarrow> lastIndex \<le> match_index m)"

text \<open>
  The lexicographic order of two strings: they are compared code unit by code unit from
  the left, and a proper prefix comes first. It is the order of \<^verbatim>\<open><\<close> on strings.
\<close>

fun code_unit_compare :: "string \<Rightarrow> string \<Rightarrow> int" where
  "code_unit_compare [] [] = 0"
| "code_unit_compare [] (y # ys) = - 1"
| "code_unit_compare (x # xs) [] = 1"
| "code_unit_compare (x # xs) (y # ys) =
     (if (of_char x :: nat) < of_char y then - 1
      else if (of_char y :: nat) < of_char x then 1
      else code_unit_compare xs ys)"

section \<open>Example inputs\<close>

text \<open>A span of plain text with the default annotation, and the same in bold red.\<close>

definition plain :: "string \<Rightarrow> RichText" where
  "plain s =
     \<lparr>PlainText = s, Text = Some \<lparr>Content = s, Link = None\<rparr>, Annotation = default_annotation,
      Equation = None, Mention = None, InternalHref = None, Href = None,
      IsFootnoteMarker = None, FootnoteRef = None, IsCitationMarker = None, CitationRef = None\<rparr>"

definition bold_red :: "string \<Rightarrow> RichText" where
  "bold_red s = (plain s)\<lparr>Annotation := default_annotation\<lparr>Bold := True, Color := ''red''\<rparr>\<rparr>"

text \<open>
  A paragraph citing \<^verbatim>\<open>smith2020\<close> (in bold red) and \<^verbatim>\<open>doe2019\<close>, and a bibliography that has
  only \<^verbatim>\<open>smith2020\<close>.
\<close>

definition cited_paragraph :: Block where
  "cited_paragraph =
     TextBlock ''b1'' Paragraph
       [plain ''Prior work '', bold_red ''[@smith2020] shows'', plain '' [@doe2019].''] None"

definition pandoc_config :: CitationsConfig where
  "pandoc_config =
     \<lparr>in_text_citation_format = ''[@key]'', bibliography_format_simplified_ieee = False\<rparr>"

definition smith_entry :: ParsedCitationEntry where
  "smith_entry =
     \<lparr>key = ''smith2020'', authors = ''Smith'', year = ''2020'',
      ieee_formatted = ''J. Smith, 2020.'', apa_formatted = ''Smith, J. (2020).''\<rparr>"

definition smith_only :: "string \<rightharpoonup> ParsedCitationEntry" where
  "smith_only = [''smith2020'' \<mapsto> smith_entry]"

definition smith_match :: CitationMatch where
  "smith_match = \<lparr>m_key = ''smith2020'', m_start = 11, m_end = 23, fullMatch = ''[@smith2020]''\<rparr>"

text \<open>A span of code.\<close>

definition code_span :: "string \<Rightarrow> RichText" where
  "code_span s = (plain s)\<lparr>Annotation := default_annotation\<lparr>Code := True\<rparr>\<rparr>"

text \<open>
  A host for the examples, as far as the two patterns with the prefix \<^verbatim>\<open>ft_\<close> go. The prefix
  has no character of pattern syntax, so it stands for itself in the two sources: the
  pattern of the inline markers is the opener \<^verbatim>\<open>[^ft_\<close>, a greedy run of key characters
  (at least one) and \<^verbatim>\<open>]\<close>, not followed by a colon; the pattern of the definitions is two
  line feeds, the same opener and key, \<^verbatim>\<open>]:\<close> and a greedy run of white space. Every other
  source is refused: a real host reads it as a pattern, and the examples do not ask for one.
\<close>

definition reference_pattern :: "string \<Rightarrow> matcher" where
  "reference_pattern opener prev s =
     (case strip_prefix opener s of
        None \<Rightarrow> None
      | Some r \<Rightarrow>
          (let marker = takeWhile word_char r; r' = dropWhile word_char r
           in if marker = [] then None
              else (case r' of
                      [] \<Rightarrow> None
                    | c # r'' \<Rightarrow>
                        if c = CHR '']'' \<and> (case r'' of [] \<Rightarrow> True | d # _ \<Rightarrow> d \<noteq> CHR '':'')
                        then Some (marker, length opener + length marker + 1)
                        else None)))"

definition definition_head_pattern :: "string \<Rightarrow> matcher" where
  "definition_head_pattern opener prev s =
     (case strip_prefix opener s of
        None \<Rightarrow> None
      | Some r \<Rightarrow>
          (let marker = takeWhile word_char r; r' = dropWhile word_char r
           in if marker = [] then None
              else (case strip_prefix '']:'' r' of
                      None \<Rightarrow> None
                    | Some r'' \<Rightarrow>
                        Some (marker, length opener + length marker + 2
                                        + length (takeWhile white_space r'')))))"

text \<open>\<^verbatim>\<open>exec\<close> of a global pattern of this shape: the answer of \<open>exec_from\<close>, as the host gives it.\<close>

definition global_exec :: "matcher \<Rightarrow> RegExp" where
  "global_exec pattern s lastIndex =
     (case fst (exec_from pattern lastIndex s) of
        None \<Rightarrow> None
      | Some m \<Rightarrow> Some \<lparr>match_index = index m, match_0 = whole m, match_1 = Some (group1 m)\<rparr>)"

definition ft_RegExp :: RegExp_constructor where
  "ft_RegExp source flags =
     (if source = inline_marker_source ''ft_'' \<and> flags = ''g''
      then Inr (global_exec (reference_pattern ''[^ft_''))
      else if source = definition_source ''ft_'' \<and> flags = ''g''
      then Inr (global_exec (definition_head_pattern ''\<newline>\<newline>[^ft_''))
      else Inl SyntaxError)"

text \<open>The footnote configuration with the prefix \<^verbatim>\<open>ft_\<close> and one source switched on.\<close>

definition ft_config :: "footnote_source \<Rightarrow> FootnotesConfig" where
  "ft_config src =
     \<lparr>source_end_of_block = (src = end_of_block),
      source_start_of_child_blocks = (src = start_of_child_blocks),
      source_block_comments = (src = block_comments),
      marker_prefix = ''ft_''\<rparr>"

text \<open>
  A paragraph with one inline reference and two definitions at its end, the second without
  an inline reference.
\<close>

definition note_paragraph :: Block where
  "note_paragraph =
     TextBlock ''p1'' Paragraph
       [plain ''See it here[^ft_a]\<newline>\<newline>[^ft_a]: first note\<newline>\<newline>[^ft_b]: second note'']
       None"

text \<open>
  A paragraph with the inline references \<^verbatim>\<open>a\<close> and \<^verbatim>\<open>b\<close> and their definitions at its end;
  the definition of \<^verbatim>\<open>a\<close> has no content before the blank line that ends it.
\<close>

definition empty_note_paragraph :: Block where
  "empty_note_paragraph =
     TextBlock ''p3'' Paragraph
       [plain ''x[^ft_a] y[^ft_b]\<newline>\<newline>[^ft_a]: \<newline>\<newline>[^ft_b]: second'']
       None"

text \<open>
  A paragraph whose only marker is in a code run, and a comments client that answers every
  request with one footnote comment.
\<close>

definition code_only_paragraph :: Block where
  "code_only_paragraph = TextBlock ''p2'' Paragraph [plain ''Run '', code_span ''x[^ft_a]''] None"

definition answering_client :: comments_client where
  "answering_client block_id =
     Inr [\<lparr>comment_rich_text = [plain ''[^ft_a]: from a comment''], comment_attachments = []\<rparr>]"

text \<open>
  A paragraph with the two inline markers \<^verbatim>\<open>[^ft_a]\<close> and \<^verbatim>\<open>[^ft_b]\<close> and three children: a
  note for \<^verbatim>\<open>a\<close>, a plain paragraph, a note for \<^verbatim>\<open>b\<close>; the notes have a child of their own.
\<close>

definition note_a_child :: Block where
  "note_a_child =
     TextBlock ''c0'' Paragraph [plain ''[^ft_a]: note a'']
       (Some [TextBlock ''g0'' Paragraph [plain ''below a''] None])"

definition plain_child :: Block where
  "plain_child = TextBlock ''c1'' Paragraph [plain ''plain text''] None"

definition note_b_child :: Block where
  "note_b_child =
     TextBlock ''c2'' Paragraph [plain ''[^ft_b]: note b'']
       (Some [TextBlock ''g2'' Paragraph [plain ''below b''] None])"

definition two_marker_parent :: Block where
  "two_marker_parent =
     TextBlock ''p'' Paragraph [plain ''Text[^ft_a] and[^ft_b].'']
       (Some [note_a_child, plain_child, note_b_child])"

definition cited :: "string \<Rightarrow> string \<Rightarrow> int option \<Rightarrow> Citation" where
  "cited k a i =
     \<lparr>Key = k, FormattedEntry = a @ '' (n.d.).'', Authors = a, Year = ''n.d.'', Index = i,
      SourceBlockIds = []\<rparr>"

definition collated_list :: "Citation list" where
  "collated_list =
     [cited ''k1'' ''Zhang'' (Some 2), cited ''k2'' ''adams'' (Some 3),
      cited ''k3'' ''Zhang'' (Some 1), cited ''k4'' ''Clark'' (Some 2)]"

definition zhang_adams :: "Citation list" where
  "zhang_adams = [cited ''k1'' ''Zhang'' None, cited ''k2'' ''adams'' None]"

text \<open>
  An instance of \<^verbatim>\<open>localeCompare\<close>: the order that the collation of an English locale gives to
  strings of ASCII letters. The strings are compared letter by letter without regard to
  case, a proper prefix first; strings that are equal in this way are ordered by their
  first difference in case, the lower-case letter first. So \<^verbatim>\<open>adams\<close> comes before \<^verbatim>\<open>Zhang\<close>,
  and \<^verbatim>\<open>a\<close> before \<^verbatim>\<open>A\<close>. Code units that are not letters are compared by their code here;
  a host has its own order for them, and the examples have none.
\<close>

definition lower_case :: "char \<Rightarrow> char" where
  "lower_case c =
     (if 65 \<le> (of_char c :: nat) \<and> (of_char c :: nat) \<le> 90 then char_of ((of_char c :: nat) + 32)
      else c)"

definition letter_collation :: "string \<Rightarrow> string \<Rightarrow> int" where
  "letter_collation a b =
     (let primary = code_unit_compare (map lower_case a) (map lower_case b)
      in if primary \<noteq> 0 then primary else code_unit_compare b a)"

text \<open>A store with one span: a page mention with a link.\<close>

definition page_mention :: RichText where
  "page_mention =
     \<lparr>PlainText = ''A page'',
      Text = Some \<lparr>Content = ''A page'', Link = Some \<lparr>Url = ''https://example.org/a''\<rparr>\<rparr>,
      Annotation = default_annotation, Equation = None,
      Mention = Some \<lparr>MentionType = ''page'',
                      Page = Some \<lparr>PageId = ''page-1'', ContentType = ''page''\<rparr>,
                      DateStr = None, LinkMention = None, CustomEmoji = None\<rparr>,
      InternalHref = None, Href = None, IsFootnoteMarker = None, FootnoteRef = None,
      IsCitationMarker = None, CitationRef = None\<rparr>"

definition page_mention_store :: store where
  "page_mention_store =
     [RichTextObject
        \<lparr>o_PlainText = ''A page'', o_Text = Some 1, o_Annotation = 3, o_Equation = None,
         o_Mention = Some 4, o_InternalHref = None, o_Href = None, o_IsFootnoteMarker = None,
         o_FootnoteRef = None, o_IsCitationMarker = None, o_CitationRef = None\<rparr>,
      TextObject \<lparr>o_Content = ''A page'', o_Link = Some 2\<rparr>,
      LinkObject \<lparr>Url = ''https://example.org/a''\<rparr>,
      AnnotationObject default_annotation,
      MentionObject
        \<lparr>o_MentionType = ''page'', o_Page = Some 5, o_DateStr = None, o_LinkMention = None,
         o_CustomEmoji = None\<rparr>,
      InterlinkedContentObject \<lparr>PageId = ''page-1'', ContentType = ''page''\<rparr>]"

text \<open>
  A paragraph whose first run is code and holds a footnote marker and a citation token, and
  whose second run is plain and holds one of each; and a bibliography with both keys.
\<close>

definition mixed_paragraph :: Block where
  "mixed_paragraph =
     TextBlock ''p4'' Paragraph [code_span ''[^ft_x] [@k1]'', plain '' see[^ft_a] [@k2]''] None"

definition k1_k2 :: "string \<rightharpoonup> ParsedCitationEntry" where
  "k1_k2 = [''k1'' \<mapsto> smith_entry, ''k2'' \<mapsto> smith_entry]"

text \<open>The marker of the paragraph that is outside code.\<close>

definition marker_a :: FootnoteMarkerInfo where
  "marker_a =
     \<lparr>Marker = Some ''a'', FullMarker = ''[^ft_a]'',
      Location = \<lparr>BlockProperty = RichTextsOf Paragraph, RichTextIndex = 1,
                  CharStart = 17, CharEnd = 24\<rparr>\<rparr>"

text \<open>The paragraph after footnote extraction with the end-of-block source.\<close>

definition mixed_paragraph_marked :: Block where
  "mixed_paragraph_marked =
     TextBlock ''p4'' Paragraph
       [code_span ''[^ft_x] [@k1]'', plain '' see'',
        (plain ''[^ft_a]'')\<lparr>IsFootnoteMarker := Some True, FootnoteRef := Some ''a''\<rparr>,
        plain '' [@k2]''] None"

section \<open>Properties of the span operations\<close>

lemma joinPlainText_simps [simp]:
  "joinPlainText [] = []"
  "joinPlainText (x # xs) = PlainText x @ joinPlainText xs"
  "joinPlainText (xs @ ys) = joinPlainText xs @ joinPlainText ys"
  by (simp_all add: joinPlainText_def)

lemma length_joinPlainText_Cons:
  "length (joinPlainText (x # xs)) = length (PlainText x) + length (joinPlainText xs)"
  by simp

lemma cloneRichText_id [simp]: "cloneRichText richText = richText"
  by (simp add: cloneRichText_def split: option.splits)

lemma PlainText_setPlainText [simp]: "PlainText (setPlainText s part) = s"
  by (simp add: setPlainText_def)

lemma substring_0 [simp]: "substring s 0 n = take n s"
  by (simp add: substring_def Let_def min_def)

text \<open>Once the cut is at or before the running position, every span goes to \<open>after\<close>.\<close>

lemma split_loop_past:
  "splitCharPos \<le> currentPos \<Longrightarrow>
     split_loop splitCharPos currentPos (before, after) rts = (before, after @ rts)"
  by (induction rts arbitrary: currentPos after) (simp_all add: Let_def)

text \<open>The joined text of the two sides, for any running position and any accumulators.\<close>

lemma split_loop_join:
  "split_loop splitCharPos currentPos (before, after) rts = (b, a) \<Longrightarrow>
     after = [] \<or> splitCharPos \<le> currentPos \<Longrightarrow>
     joinPlainText b = joinPlainText before @ take (splitCharPos - currentPos) (joinPlainText rts)
   \<and> joinPlainText a = joinPlainText after @ drop (splitCharPos - currentPos) (joinPlainText rts)"
proof (induction rts arbitrary: currentPos before after)
  case Nil
  then show ?case by simp
next
  case (Cons richText rest)
  let ?len = "length (PlainText richText)"
  show ?case
  proof (cases "splitCharPos \<le> currentPos")
    case True
    with Cons.prems show ?thesis
      by (auto simp add: split_loop_past)
  next
    case False
    with Cons.prems have emp: "after = []" by simp
    show ?thesis
    proof (cases "splitCharPos \<ge> currentPos + ?len")
      case True
      with False Cons.prems
      have "split_loop splitCharPos (currentPos + ?len) (before @ [richText], after) rest = (b, a)"
        by (simp add: Let_def)
      from Cons.IH [OF this] emp True show ?thesis
        by simp
    next
      case straddle: False
      define off where "off = splitCharPos - currentPos"
      have off: "0 < off" "off < ?len" using False straddle by (simp_all add: off_def)
      from False straddle Cons.prems off
      have run: "split_loop splitCharPos (currentPos + ?len)
             (before @ [setPlainText (take off (PlainText richText)) richText],
              after @ [setPlainText (drop off (PlainText richText)) richText]) rest = (b, a)"
        by (simp add: Let_def off_def)
      have past: "splitCharPos \<le> currentPos + ?len" using straddle by simp
      from run have "b = before @ [setPlainText (take off (PlainText richText)) richText]"
        and "a = after @ [setPlainText (drop off (PlainText richText)) richText] @ rest"
        by (simp_all add: split_loop_past [OF past])
      with off past show ?thesis
        by (simp add: off_def)
    qed
  qed
qed

lemma split_join_take:
  "joinPlainText (fst (splitRichTextsAtCharPosition rts k)) = take k (joinPlainText rts)"
  using split_loop_join [of k 0 "[]" "[]" rts]
  by (cases "split_loop k 0 ([], []) rts") (simp add: splitRichTextsAtCharPosition_def)

lemma split_join_drop:
  "joinPlainText (snd (splitRichTextsAtCharPosition rts k)) = drop k (joinPlainText rts)"
  using split_loop_join [of k 0 "[]" "[]" rts]
  by (cases "split_loop k 0 ([], []) rts") (simp add: splitRichTextsAtCharPosition_def)

text \<open>
  Claim C1. Splitting a rich-text sequence \<open>S\<close> at a character position \<open>k\<close> gives a pair
  \<open>(before, after)\<close> whose joined texts, concatenated, are the joined text of \<open>S\<close>: no
  character is dropped or duplicated. This holds at every position \<open>k\<close>, so in particular
  at every \<open>k\<close> with \<open>0 \<le> k\<close> and \<open>k \<le> length (joinPlainText S)\<close>.
\<close>

theorem split_preserves_join:
  "joinPlainText (fst (splitRichTextsAtCharPosition S k))
     @ joinPlainText (snd (splitRichTextsAtCharPosition S k)) = joinPlainText S"
  by (simp add: split_join_take split_join_drop)

section \<open>Properties of citation extraction\<close>

lemma exec_all_sound:
  "m \<in> set (exec_all pattern prev pos skip s) \<Longrightarrow>
     pos + skip \<le> index m \<and> index m < pos + length s
     \<and> take (length (whole m)) (drop (index m - pos) s) = whole m"
proof (induction pattern prev pos skip s rule: exec_all.induct)
  case (1 pattern prev pos skip)
  then show ?case by simp
next
  case (2 pattern prev pos k c cs)
  then have "pos + Suc k \<le> index m" "index m < Suc pos + length cs"
    "take (length (whole m)) (drop (index m - Suc pos) cs) = whole m" by simp_all
  moreover from this have "index m - pos = Suc (index m - Suc pos)" by simp
  ultimately show ?case by simp
next
  case (3 pattern prev pos c cs)
  show ?case
  proof (cases "pattern prev (c # cs)")
    case None
    with 3 have "Suc pos \<le> index m" "index m < Suc pos + length cs"
      "take (length (whole m)) (drop (index m - Suc pos) cs) = whole m" by simp_all
    moreover from this have "index m - pos = Suc (index m - Suc pos)" by simp
    ultimately show ?thesis by simp
  next
    case (Some gl)
    obtain g len where gl: "gl = (g, len)" by (cases gl)
    from "3.prems" Some gl
    consider "m = \<lparr>index = pos, whole = take len (c # cs), group1 = g\<rparr>"
      | "m \<in> set (exec_all pattern (Some c) (Suc pos) (len - 1) cs)" by auto
    then show ?thesis
    proof cases
      case 1
      then show ?thesis by (simp add: min_def)
    next
      case 2
      from "3.IH"(2) [OF Some gl [symmetric] 2]
      have "Suc pos + (len - 1) \<le> index m" "index m < Suc pos + length cs"
        "take (length (whole m)) (drop (index m - Suc pos) cs) = whole m" by simp_all
      moreover from this have "index m - pos = Suc (index m - Suc pos)" by simp
      ultimately show ?thesis by simp
    qed
  qed
qed

lemma find_citation_matches_in:
  assumes "m \<in> set (find_citation_matches pattern rts)"
  shows "match_in (joinPlainText rts) m" and "\<not> in_code (m_start m) 0 rts"
proof -
  from assms obtain r where r: "r \<in> set (exec_all pattern None 0 0 (joinPlainText rts))"
    and nc: "\<not> in_code (index r) 0 rts"
    and m: "m = \<lparr>m_key = group1 r, m_start = index r, m_end = index r + length (whole r),
                  fullMatch = whole r\<rparr>"
    by (auto simp: find_citation_matches_def to_citation_match_def)
  from exec_all_sound [OF r] m show "match_in (joinPlainText rts) m"
    by (simp add: match_in_def)
  from nc m show "\<not> in_code (m_start m) 0 rts" by simp
qed

lemma replace_step_join:
  assumes "match_in (joinPlainText new) m"
  shows "joinPlainText (fst (splitRichTextsAtCharPosition new (m_start m)) @ [markerText m]
            @ snd (splitRichTextsAtCharPosition
                     (snd (splitRichTextsAtCharPosition new (m_start m))) (m_end m - m_start m)))
         = joinPlainText new"
proof -
  let ?t = "joinPlainText new"
  from assms have e: "m_end m - m_start m = length (fullMatch m)"
    and f: "take (length (fullMatch m)) (drop (m_start m) ?t) = fullMatch m"
    by (simp_all add: match_in_def)
  have "take (m_start m) ?t @ fullMatch m @ drop (length (fullMatch m)) (drop (m_start m) ?t) = ?t"
    by (metis f append_take_drop_id)
  then show ?thesis
    by (simp add: split_join_take split_join_drop e markerText_def)
qed

lemma replace_loop_join:
  "\<forall>m \<in> set ms. match_in (joinPlainText new) m \<Longrightarrow>
     joinPlainText (fst (replace_loop bibEntries style ms (new, cits))) = joinPlainText new"
proof (induction ms arbitrary: new cits)
  case Nil
  then show ?case by simp
next
  case (Cons m ms)
  show ?case
  proof (cases "bibEntries (m_key m)")
    case None
    with Cons show ?thesis by simp
  next
    case (Some entry)
    let ?new' = "fst (splitRichTextsAtCharPosition new (m_start m)) @ [markerText m]
            @ snd (splitRichTextsAtCharPosition
                     (snd (splitRichTextsAtCharPosition new (m_start m))) (m_end m - m_start m))"
    from Cons.prems have j: "joinPlainText ?new' = joinPlainText new"
      by (intro replace_step_join) simp
    with Cons.prems have "\<forall>m \<in> set ms. match_in (joinPlainText ?new') m" by simp
    from Cons.IH [OF this] j Some show ?thesis
      by (simp add: Let_def split_beta)
  qed
qed

lemma replace_loop_nonempty:
  "new \<noteq> [] \<Longrightarrow> fst (replace_loop bibEntries style ms (new, cits)) \<noteq> []"
  by (induction ms arbitrary: new cits) (simp_all add: Let_def split_beta split: option.splits)

lemma replace_loop_fst_cits:
  "fst (replace_loop bibEntries style ms (new, cits)) = fst (replace_loop bibEntries style ms (new, []))"
proof (induction ms arbitrary: new cits)
  case Nil
  then show ?case by simp
next
  case (Cons m ms)
  show ?case
  proof (cases "bibEntries (m_key m)")
    case None
    with Cons show ?thesis by simp
  next
    case (Some entry)
    show ?thesis
      by (simp add: Some Let_def split_beta Cons.IH [where cits = "cits @ _"] Cons.IH [where cits = "[_]"])
  qed
qed

text \<open>The citations recorded by the loop: one per match whose key is in the map, in the order of processing.\<close>

lemma replace_loop_citations:
  "snd (replace_loop bibEntries style ms (new, cits)) =
     cits @ map (\<lambda>m. make_citation m (formatCitation (the (bibEntries (m_key m))) style))
              (filter (\<lambda>m. bibEntries (m_key m) \<noteq> None) ms)"
  by (induction ms arbitrary: new cits) (auto simp add: Let_def split_beta split: option.splits)

section \<open>Locations and setters\<close>

lemma concat_map_concat:
  "concat (map f (concat xss)) = concat (map (\<lambda>xs. concat (map f xs)) xss)"
  by (induction xss) simp_all

lemma enumerate_nth: "enumerate 0 xs = map (\<lambda>i. (i, xs ! i)) [0..<length xs]"
  by (rule nth_equalityI) (simp_all add: nth_enumerate_eq)

lemma row_locations_nth:
  "row_locations r cells = concat (map (\<lambda>c. addLocation (TableCell r c) (cells ! c)) [0..<length cells])"
  by (simp add: row_locations_def enumerate_nth comp_def)

lemma table_locations_paths:
  "concat (map (\<lambda>(rowIndex, row). row_locations rowIndex row) (enumerate 0 rows)) =
   concat (map (\<lambda>p. addLocation p (get_at p (TableBlock i rows))) (table_paths rows))"
proof -
  have "concat (map (\<lambda>(rowIndex, row). row_locations rowIndex row) (enumerate 0 rows)) =
        concat (map (\<lambda>r. concat (map (\<lambda>c. addLocation (TableCell r c) (rows ! r ! c))
                  [0..<length (rows ! r)])) [0..<length rows])"
    by (simp add: enumerate_nth comp_def row_locations_nth)
  also have "\<dots> = concat (map (\<lambda>r. concat (map (\<lambda>c. addLocation (TableCell r c)
                  (get_at (TableCell r c) (TableBlock i rows))) [0..<length (rows ! r)])) [0..<length rows])"
    by (intro arg_cong [where f = concat] map_cong refl) simp
  also have "\<dots> = concat (map (\<lambda>p. addLocation p (get_at p (TableBlock i rows))) (table_paths rows))"
    by (simp add: table_paths_def concat_map_concat comp_def)
  finally show ?thesis .
qed

lemma locations_paths:
  "getAllRichTextLocations b = concat (map (\<lambda>p. addLocation p (get_at p b)) (all_paths b))"
  by (cases b) (simp_all add: table_locations_paths)

lemma in_table_paths:
  "TableCell r c \<in> set (table_paths rows) \<longleftrightarrow> r < length rows \<and> c < length (rows ! r)"
  by (force simp: table_paths_def)

lemma table_paths_cells: "p \<in> set (table_paths rows) \<Longrightarrow> \<exists>r c. p = TableCell r c"
  by (auto simp: table_paths_def)

lemma distinct_table_paths_upto:
  "distinct (concat (map (\<lambda>r. map (TableCell r) [0..<n r]) [0..<R]))"
  by (induction R) (auto simp: distinct_map inj_on_def)

lemma distinct_all_paths: "distinct (all_paths b)"
  by (cases b) (simp_all add: table_paths_def distinct_table_paths_upto)

lemma table_paths_update:
  "r < length rows \<Longrightarrow> table_paths (rows[r := (rows ! r)[c := v]]) = table_paths rows"
  unfolding table_paths_def
  by (intro arg_cong [where f = concat] map_cong) (simp_all add: nth_list_update)

lemma all_paths_setter: "all_paths (setter p v b) = all_paths b"
  by (cases "(p, v, b)" rule: setter.cases) (simp_all add: table_paths_update)

lemma get_at_setter:
  assumes "p \<in> set (all_paths b)"
  shows "get_at q (setter p v b) = (if q = p then v else get_at q b)"
proof (cases "(p, v, b)" rule: setter.cases)
  case (1 k rt i k' rts ch)
  with assms show ?thesis by (cases q) auto
next
  case (2 k rt i k' cap)
  with assms show ?thesis by (cases q) auto
next
  case (3 rowIndex cellIndex rt i rows)
  with assms have rc: "rowIndex < length rows" "cellIndex < length (rows ! rowIndex)"
    by (simp_all add: in_table_paths)
  show ?thesis
  proof (cases q)
    case (TableCell r' c')
    with 3 rc show ?thesis
      by (auto simp add: nth_list_update)
  qed (use 3 rc in simp_all)
qed (use assms in \<open>auto dest: table_paths_cells\<close>)

lemma locations_props:
  "l \<in> set (getAllRichTextLocations b) \<Longrightarrow>
     property l \<in> set (all_paths b) \<and> get_at (property l) b = richTexts l \<and> richTexts l \<noteq> []"
  by (auto simp: locations_paths addLocation_def split: if_splits)

lemma property_addLocations:
  "map property (concat (map (\<lambda>p. addLocation p (g p)) ps)) = filter (\<lambda>p. g p \<noteq> []) ps"
  by (induction ps) (simp_all add: addLocation_def)

lemma property_locations:
  "map property (getAllRichTextLocations b) = filter (\<lambda>p. get_at p b \<noteq> []) (all_paths b)"
  unfolding locations_paths by (rule property_addLocations)

lemma citation_loop_paths:
  "all_paths (fst (citation_locations_loop pattern bibEntries style locs (b, cits, pa))) = all_paths b"
  by (induction locs arbitrary: b cits pa) (simp_all add: Let_def split_beta all_paths_setter)

lemma citation_loop_get_at:
  assumes "distinct (map property locs)"
    and "\<forall>l \<in> set locs. property l \<in> set (all_paths b) \<and> get_at (property l) b = richTexts l"
  shows "get_at q (fst (citation_locations_loop pattern bibEntries style locs (b, cits, pa))) =
           (if q \<in> property ` set locs then process_location pattern bibEntries style (get_at q b)
            else get_at q b)"
  using assms
proof (induction locs arbitrary: b cits pa)
  case Nil
  then show ?case by simp
next
  case (Cons l rest)
  let ?ms = "find_citation_matches pattern (richTexts l)"
  let ?new = "process_location pattern bibEntries style (richTexts l)"
  define b1 where "b1 = (if ?ms = [] then b else setter (property l) ?new b)"
  from Cons.prems have l: "property l \<in> set (all_paths b)" "get_at (property l) b = richTexts l"
    and notin: "property l \<notin> property ` set rest" and d: "distinct (map property rest)"
    by auto
  have g1: "get_at q b1 = (if q = property l then ?new else get_at q b)" for q
    using l by (auto simp: b1_def get_at_setter process_location_def)
  have p1: "all_paths b1 = all_paths b"
    by (simp add: b1_def all_paths_setter)
  have pre: "\<forall>l' \<in> set rest. property l' \<in> set (all_paths b1) \<and> get_at (property l') b1 = richTexts l'"
  proof
    fix l' assume l': "l' \<in> set rest"
    with notin have "property l' \<noteq> property l" by (metis imageI)
    with Cons.prems(2) l' show "property l' \<in> set (all_paths b1) \<and> get_at (property l') b1 = richTexts l'"
      by (simp add: g1 p1)
  qed
  obtain cits1 pa1 where step:
    "citation_locations_loop pattern bibEntries style (l # rest) (b, cits, pa) =
       citation_locations_loop pattern bibEntries style rest (b1, cits1, pa1)"
    by (cases "?ms = []")
       (auto simp: b1_def process_location_def Let_def split_beta
          replace_loop_fst_cits [where cits = cits])
  have "get_at q (fst (citation_locations_loop pattern bibEntries style rest (b1, cits1, pa1))) =
          (if q \<in> property ` set rest then process_location pattern bibEntries style (get_at q b1)
           else get_at q b1)"
    by (rule Cons.IH [OF d pre])
  with notin l show ?case
    unfolding step by (auto simp: g1)
qed

lemma process_location_nonempty:
  "rts \<noteq> [] \<Longrightarrow> process_location pattern bibEntries style rts \<noteq> []"
  by (simp add: process_location_def Let_def replace_loop_nonempty)

lemma citation_loop_locations:
  "getAllRichTextLocations
     (fst (citation_locations_loop pattern bibEntries style (getAllRichTextLocations b) (b, cits, pa))) =
   map (\<lambda>l. l\<lparr>richTexts := process_location pattern bibEntries style (richTexts l)\<rparr>)
     (getAllRichTextLocations b)"
proof -
  let ?b' = "fst (citation_locations_loop pattern bibEntries style (getAllRichTextLocations b) (b, cits, pa))"
  let ?P = "process_location pattern bibEntries style"
  have d: "distinct (map property (getAllRichTextLocations b))"
    by (simp add: property_locations distinct_all_paths)
  have g: "get_at q ?b' = (if q \<in> property ` set (getAllRichTextLocations b) then ?P (get_at q b)
                           else get_at q b)" for q
    by (rule citation_loop_get_at [OF d]) (simp add: locations_props)
  have mem: "q \<in> property ` set (getAllRichTextLocations b) \<longleftrightarrow>
               q \<in> set (all_paths b) \<and> get_at q b \<noteq> []" for q
    using arg_cong [OF property_locations [of b], of set] by auto
  have "getAllRichTextLocations ?b' = concat (map (\<lambda>p. addLocation p (get_at p ?b')) (all_paths b))"
    by (simp add: locations_paths [of ?b'] citation_loop_paths)
  also have "\<dots> = concat (map (\<lambda>p. map (\<lambda>l. l\<lparr>richTexts := ?P (richTexts l)\<rparr>)
                                  (addLocation p (get_at p b))) (all_paths b))"
    by (intro arg_cong [where f = concat] map_cong refl)
       (auto simp: g mem addLocation_def process_location_nonempty)
  also have "\<dots> = map (\<lambda>l. l\<lparr>richTexts := ?P (richTexts l)\<rparr>) (getAllRichTextLocations b)"
    by (simp add: locations_paths [of b] map_concat comp_def)
  finally show ?thesis .
qed

section \<open>Properties of the citation extraction of a block\<close>

lemma process_location_join:
  "joinPlainText (process_location pattern bibEntries style rts) = joinPlainText rts"
  by (simp add: process_location_def Let_def replace_loop_join find_citation_matches_in)

lemma extract_citations_locations:
  "getAllRichTextLocations (fst (extractCitationsFromBlock block config bibEntries)) =
     (case citation_regex (in_text_citation_format config) of
        None \<Rightarrow> getAllRichTextLocations block
      | Some pattern \<Rightarrow>
          map (\<lambda>l. l\<lparr>richTexts := process_location pattern bibEntries
                 (if bibliography_format_simplified_ieee config then simplified_ieee else apa)
                 (richTexts l)\<rparr>) (getAllRichTextLocations block))"
  by (cases "getAllRichTextLocations block = []")
     (simp_all add: extractCitationsFromBlock_def Let_def split_beta citation_loop_locations
        split: option.splits)

text \<open>
  Claim C9. \<^verbatim>\<open>extractCitationsFromBlock\<close> preserves the joined plain text of every location:
  for every block, configuration and bibliography map, the block after extraction has the
  same locations, in the same order, and the joined plain text of each is what it was
  before. (A resolved token is replaced by one marker span whose text is the token; other
  tokens are left alone.)
\<close>

theorem citations_preserve_text:
  "map (\<lambda>l. (property l, joinPlainText (richTexts l)))
     (getAllRichTextLocations (fst (extractCitationsFromBlock block config bibEntries))) =
   map (\<lambda>l. (property l, joinPlainText (richTexts l))) (getAllRichTextLocations block)"
  by (simp add: extract_citations_locations process_location_join comp_def split: option.splits)

subsection \<open>Where the spans of the output come from\<close>

lemma span_of_fields:
  "span_of s0 s \<Longrightarrow> Annotation s = Annotation s0 \<and> IsCitationMarker s = IsCitationMarker s0
     \<and> CitationRef s = CitationRef s0 \<and> IsFootnoteMarker s = IsFootnoteMarker s0
     \<and> FootnoteRef s = FootnoteRef s0"
  by (auto simp: span_of_def setPlainText_def)

lemma span_of_refl [simp]: "span_of s s"
  by (simp add: span_of_def)

lemma setPlainText_twice: "setPlainText t (setPlainText t' s) = setPlainText t s"
  by (simp add: setPlainText_def split: option.splits)

lemma span_of_trans: "span_of s0 s1 \<Longrightarrow> span_of s1 s2 \<Longrightarrow> span_of s0 s2"
  by (auto simp: span_of_def setPlainText_twice)

lemma split_loop_spans:
  "set (fst (split_loop k cur (before, after) rts)) \<union> set (snd (split_loop k cur (before, after) rts))
     \<subseteq> set before \<union> set after \<union> {s. \<exists>s0 \<in> set rts. span_of s0 s}"
proof (induction rts arbitrary: cur before after)
  case Nil
  then show ?case by simp
next
  case (Cons x rest)
  let ?len = "length (PlainText x)"
  let ?goal = "set before \<union> set after \<union> {s. \<exists>s0 \<in> set (x # rest). span_of s0 s}"
  have x: "span_of x x" "\<And>t. span_of x (setPlainText t x)"
    by (auto simp: span_of_def)
  have step: "set b' \<union> set a' \<union> {s. \<exists>s0 \<in> set rest. span_of s0 s} \<subseteq> ?goal"
    if "set b' \<subseteq> set before \<union> {s. span_of x s}" "set a' \<subseteq> set after \<union> {s. span_of x s}"
    for b' a'
    using that by auto
  consider "k \<le> cur" | "\<not> k \<le> cur" "k \<ge> cur + ?len" | "\<not> k \<le> cur" "\<not> k \<ge> cur + ?len"
    by blast
  then show ?case
  proof cases
    case 1
    then have eq: "split_loop k cur (before, after) (x # rest) =
        split_loop k (cur + ?len) (before, after @ [x]) rest"
      by (simp add: Let_def)
    show ?thesis unfolding eq
      by (rule order_trans [OF Cons.IH step]) (use x in auto)
  next
    case 2
    then have eq: "split_loop k cur (before, after) (x # rest) =
        split_loop k (cur + ?len) (before @ [x], after) rest"
      by (simp add: Let_def)
    show ?thesis unfolding eq
      by (rule order_trans [OF Cons.IH step]) (use x in auto)
  next
    case 3
    then have "0 < k - cur" "k - cur < ?len" by simp_all
    with 3 have eq: "split_loop k cur (before, after) (x # rest) =
        split_loop k (cur + ?len) (before @ [setPlainText (take (k - cur) (PlainText x)) x],
          after @ [setPlainText (drop (k - cur) (PlainText x)) x]) rest"
      by (simp add: Let_def)
    show ?thesis unfolding eq
      by (rule order_trans [OF Cons.IH step]) (use x in auto)
  qed
qed

lemma split_spans:
  assumes "s \<in> set (fst (splitRichTextsAtCharPosition rts k)) \<union> set (snd (splitRichTextsAtCharPosition rts k))"
  shows "\<exists>s0 \<in> set rts. span_of s0 s"
  using split_loop_spans [of k 0 "[]" "[]" rts] assms
  by (auto simp add: splitRichTextsAtCharPosition_def)

lemma replace_loop_spans:
  "s \<in> set (fst (replace_loop bibEntries style ms (new, cits))) \<Longrightarrow>
     (\<exists>m \<in> set ms. bibEntries (m_key m) \<noteq> None \<and> span_of (markerText m) s)
     \<or> (\<exists>s0 \<in> set new. span_of s0 s)"
proof (induction ms arbitrary: new cits)
  case Nil
  then show ?case by (auto intro: bexI [where x = s])
next
  case (Cons m ms)
  show ?case
  proof (cases "bibEntries (m_key m)")
    case None
    with Cons.prems have "s \<in> set (fst (replace_loop bibEntries style ms (new, cits)))" by simp
    from Cons.IH [OF this] show ?thesis by auto
  next
    case (Some entry)
    let ?sp = "splitRichTextsAtCharPosition new (m_start m)"
    let ?sp2 = "splitRichTextsAtCharPosition (snd ?sp) (m_end m - m_start m)"
    let ?new' = "fst ?sp @ [markerText m] @ snd ?sp2"
    from Cons.prems Some obtain cits' where
      "s \<in> set (fst (replace_loop bibEntries style ms (?new', cits')))"
      by (simp add: Let_def split_beta)
    from Cons.IH [OF this] consider
      "\<exists>m \<in> set ms. bibEntries (m_key m) \<noteq> None \<and> span_of (markerText m) s"
      | s0 where "s0 \<in> set ?new'" "span_of s0 s" by auto
    then show ?thesis
    proof cases
      case 1
      then show ?thesis by auto
    next
      case 2
      from 2(1) consider "s0 = markerText m" | "s0 \<in> set (fst ?sp)" | "s0 \<in> set (snd ?sp2)" by auto
      then show ?thesis
      proof cases
        case 1
        with 2(2) Some have "bibEntries (m_key m) \<noteq> None \<and> span_of (markerText m) s" by simp
        then show ?thesis by auto
      next
        case 2
        then obtain s1 where "s1 \<in> set new" "span_of s1 s0" using split_spans [of s0 new] by auto
        with \<open>span_of s0 s\<close> have "\<exists>s0 \<in> set new. span_of s0 s" by (blast intro: span_of_trans)
        then show ?thesis ..
      next
        case 3
        then obtain s1 where s1: "s1 \<in> set (snd ?sp)" "span_of s1 s0"
          using split_spans [of s0 "snd ?sp"] by auto
        then obtain s2 where s2: "s2 \<in> set new" "span_of s2 s1"
          using split_spans [of s1 new] by auto
        from s1 s2 \<open>span_of s0 s\<close> have "span_of s2 s" by (blast intro: span_of_trans)
        with s2 have "\<exists>s0 \<in> set new. span_of s0 s" by blast
        then show ?thesis ..
      qed
    qed
  qed
qed

lemma process_location_spans:
  assumes "s \<in> set (process_location pattern bibEntries style rts)"
  shows "(\<exists>m \<in> set (find_citation_matches pattern rts).
            bibEntries (m_key m) \<noteq> None \<and> span_of (markerText m) s)
         \<or> (\<exists>s0 \<in> set rts. span_of s0 s)"
proof (cases "find_citation_matches pattern rts = []")
  case True
  with assms show ?thesis
    by (auto simp: process_location_def intro: bexI [where x = s])
next
  case False
  with assms have "s \<in> set (fst (replace_loop bibEntries style
      (rev (find_citation_matches pattern rts)) (rts, [])))"
    by (simp add: process_location_def Let_def)
  from replace_loop_spans [OF this] show ?thesis by simp
qed

text \<open>
  Claim C10. Every citation marker span produced by \<^verbatim>\<open>extractCitationsFromBlock\<close> carries the
  fixed default annotation (Bold, Italic, Strikethrough, Underline and Code false, Color
  \<^verbatim>\<open>default\<close>), whatever the annotations of the runs that held the token: in a block that has
  no citation marker span before extraction, every span that is a citation marker after
  extraction has the default annotation.
\<close>

theorem citation_marker_default_annotation:
  assumes "\<forall>l \<in> set (getAllRichTextLocations block). \<forall>s \<in> set (richTexts l).
             IsCitationMarker s \<noteq> Some True"
  shows "\<forall>l \<in> set (getAllRichTextLocations (fst (extractCitationsFromBlock block config bibEntries))).
           \<forall>s \<in> set (richTexts l).
             IsCitationMarker s = Some True \<longrightarrow> Annotation s = default_annotation"
proof (intro ballI impI)
  fix l s
  assume l: "l \<in> set (getAllRichTextLocations (fst (extractCitationsFromBlock block config bibEntries)))"
    and s: "s \<in> set (richTexts l)" and mk: "IsCitationMarker s = Some True"
  show "Annotation s = default_annotation"
  proof (cases "citation_regex (in_text_citation_format config)")
    case None
    with l s mk assms show ?thesis
      by (auto simp: extract_citations_locations)
  next
    case (Some pattern)
    let ?style = "if bibliography_format_simplified_ieee config then simplified_ieee else apa"
    from l Some obtain l0 where l0: "l0 \<in> set (getAllRichTextLocations block)"
      and "richTexts l = process_location pattern bibEntries ?style (richTexts l0)"
      by (auto simp: extract_citations_locations)
    with s have "s \<in> set (process_location pattern bibEntries ?style (richTexts l0))" by simp
    from process_location_spans [OF this] show ?thesis
    proof
      assume "\<exists>m \<in> set (find_citation_matches pattern (richTexts l0)).
                bibEntries (m_key m) \<noteq> None \<and> span_of (markerText m) s"
      then obtain m where "span_of (markerText m) s" by blast
      from span_of_fields [OF this] show ?thesis by (simp add: markerText_def)
    next
      assume "\<exists>s0 \<in> set (richTexts l0). span_of s0 s"
      then obtain s0 where s0: "s0 \<in> set (richTexts l0)" and "span_of s0 s" by blast
      from span_of_fields [OF this(2)] mk have "IsCitationMarker s0 = Some True" by simp
      with assms l0 s0 show ?thesis by blast
    qed
  qed
qed

lemma cited_paragraph_result:
  "extractCitationsFromBlock cited_paragraph pandoc_config smith_only =
     (TextBlock ''b1'' Paragraph
        [plain ''Prior work '', markerText smith_match, bold_red '' shows'', plain '' [@doe2019].'']
        None,
      \<lparr>citations = [make_citation smith_match (formatCitation smith_entry apa)],
       processedRichTexts = True\<rparr>)"
  by code_simp

theorem citation_marker_default_annotation_witness:
  "Bold (Annotation (bold_red ''[@smith2020] shows''))
   \<and> (\<exists>l \<in> set (getAllRichTextLocations
                    (fst (extractCitationsFromBlock cited_paragraph pandoc_config smith_only))).
        \<exists>s \<in> set (richTexts l).
          PlainText s = ''[@smith2020]'' \<and> IsCitationMarker s = Some True
          \<and> Annotation s = default_annotation)"
proof -
  have h: "\<forall>l \<in> set (getAllRichTextLocations cited_paragraph). \<forall>s \<in> set (richTexts l).
             IsCitationMarker s \<noteq> Some True"
    by code_simp
  let ?l = "\<lparr>property = RichTextsOf Paragraph,
             richTexts = [plain ''Prior work '', markerText smith_match, bold_red '' shows'',
                          plain '' [@doe2019].'']\<rparr>"
  have l: "?l \<in> set (getAllRichTextLocations
             (fst (extractCitationsFromBlock cited_paragraph pandoc_config smith_only)))"
    by (simp add: cited_paragraph_result addLocation_def)
  have s: "markerText smith_match \<in> set (richTexts ?l)" by simp
  have mk: "IsCitationMarker (markerText smith_match) = Some True"
    by (simp add: markerText_def)
  from citation_marker_default_annotation [OF h, of pandoc_config smith_only] l s mk
  have "Annotation (markerText smith_match) = default_annotation" by blast
  moreover have "PlainText (markerText smith_match) = ''[@smith2020]''"
    by (simp add: markerText_def smith_match_def)
  moreover have "Bold (Annotation (bold_red ''[@smith2020] shows''))"
    by (simp add: bold_red_def)
  ultimately show ?thesis using l s mk by blast
qed

lemma split_loop_append:
  "split_loop k cur ba (xs @ ys) =
     split_loop k (cur + length (joinPlainText xs)) (split_loop k cur ba xs) ys"
proof (induction xs arbitrary: cur ba)
  case Nil
  then show ?case by (cases ba) simp
next
  case (Cons x xs)
  obtain b a where ba: "ba = (b, a)" by (cases ba)
  show ?case
    unfolding ba by (simp add: Let_def Cons.IH add.assoc)
qed

lemma split_prefix:
  assumes "k \<le> length (joinPlainText pre)"
  shows "splitRichTextsAtCharPosition (pre @ rest) k =
           (fst (splitRichTextsAtCharPosition pre k), snd (splitRichTextsAtCharPosition pre k) @ rest)"
proof -
  obtain b a where ba: "split_loop k 0 ([], []) pre = (b, a)"
    by (cases "split_loop k 0 ([], []) pre")
  with assms show ?thesis
    by (simp add: splitRichTextsAtCharPosition_def split_loop_append split_loop_past)
qed

lemma replace_step_keeps:
  assumes "placed new m'" and "k + length (PlainText x) \<le> m_start m'"
  shows "placed (fst (splitRichTextsAtCharPosition new k) @ [x]
           @ snd (splitRichTextsAtCharPosition (snd (splitRichTextsAtCharPosition new k))
                    (length (PlainText x)))) m'"
proof -
  let ?L = "length (PlainText x)"
  from assms(1) obtain pre post where new: "new = pre @ markerText m' # post"
    and len: "length (joinPlainText pre) = m_start m'"
    by (auto simp: placed_def)
  let ?B = "fst (splitRichTextsAtCharPosition pre k)"
  let ?A = "snd (splitRichTextsAtCharPosition pre k)"
  from assms(2) len have k: "k \<le> length (joinPlainText pre)" by simp
  have s1: "splitRichTextsAtCharPosition new k = (?B, ?A @ markerText m' # post)"
    unfolding new by (rule split_prefix [OF k])
  have lenA: "length (joinPlainText ?A) = m_start m' - k"
    by (simp add: split_join_drop len)
  with assms(2) have L: "?L \<le> length (joinPlainText ?A)" by simp
  have s2: "splitRichTextsAtCharPosition (?A @ markerText m' # post) ?L =
              (fst (splitRichTextsAtCharPosition ?A ?L),
               snd (splitRichTextsAtCharPosition ?A ?L) @ markerText m' # post)"
    by (rule split_prefix [OF L])
  let ?pre' = "?B @ [x] @ snd (splitRichTextsAtCharPosition ?A ?L)"
  have "length (joinPlainText ?pre') = m_start m'"
    using assms(2) len by (simp add: split_join_take split_join_drop)
  moreover have "fst (splitRichTextsAtCharPosition new k) @ [x]
           @ snd (splitRichTextsAtCharPosition (snd (splitRichTextsAtCharPosition new k)) ?L)
         = ?pre' @ markerText m' # post"
    by (simp add: s1 s2)
  ultimately show ?thesis
    unfolding placed_def by blast
qed

lemma replace_loop_keeps:
  "placed new m' \<Longrightarrow>
   \<forall>m \<in> set ms. m_end m = m_start m + length (fullMatch m) \<and> m_end m \<le> m_start m' \<Longrightarrow>
   placed (fst (replace_loop bibEntries style ms (new, cits))) m'"
proof (induction ms arbitrary: new cits)
  case Nil
  then show ?case by simp
next
  case (Cons m ms)
  from Cons.prems(2) have rest:
    "\<forall>m \<in> set ms. m_end m = m_start m + length (fullMatch m) \<and> m_end m \<le> m_start m'"
    by (meson list.set_intros)
  show ?case
  proof (cases "bibEntries (m_key m)")
    case None
    with Cons.IH [OF Cons.prems(1) rest] show ?thesis by simp
  next
    case (Some entry)
    from Cons.prems(2) have e: "m_end m - m_start m = length (PlainText (markerText m))"
      and le: "m_start m + length (PlainText (markerText m)) \<le> m_start m'"
      by (simp_all add: markerText_def)
    have "placed (fst (splitRichTextsAtCharPosition new (m_start m)) @ [markerText m]
           @ snd (splitRichTextsAtCharPosition (snd (splitRichTextsAtCharPosition new (m_start m)))
                    (m_end m - m_start m))) m'"
      unfolding e by (rule replace_step_keeps [OF Cons.prems(1) le])
    from Cons.IH [OF this rest] Some show ?thesis
      by (simp add: Let_def split_beta)
  qed
qed

lemma replace_step_places:
  assumes "match_in (joinPlainText new) m"
  shows "placed (fst (splitRichTextsAtCharPosition new (m_start m)) @ [markerText m] @ rest) m"
proof -
  from assms have "length (joinPlainText (fst (splitRichTextsAtCharPosition new (m_start m)))) = m_start m"
    by (simp add: split_join_take match_in_def)
  then show ?thesis
    unfolding placed_def by auto
qed

lemma replace_loop_places:
  assumes "sorted_wrt (\<lambda>a b. m_end b \<le> m_start a) ms"
    and "\<forall>m \<in> set ms. match_in (joinPlainText new) m"
    and "m \<in> set ms" and "bibEntries (m_key m) \<noteq> None"
  shows "placed (fst (replace_loop bibEntries style ms (new, cits))) m"
  using assms
proof (induction ms arbitrary: new cits)
  case Nil
  then show ?case by simp
next
  case (Cons m0 ms)
  let ?new' = "fst (splitRichTextsAtCharPosition new (m_start m0)) @ [markerText m0]
           @ snd (splitRichTextsAtCharPosition (snd (splitRichTextsAtCharPosition new (m_start m0)))
                    (m_end m0 - m_start m0))"
  from Cons.prems(2) have m0: "match_in (joinPlainText new) m0" by simp
  have j: "joinPlainText ?new' = joinPlainText new"
    by (rule replace_step_join [OF m0])
  from Cons.prems(1) have sorted: "sorted_wrt (\<lambda>a b. m_end b \<le> m_start a) ms"
    and before: "\<forall>m' \<in> set ms. m_end m' \<le> m_start m0" by simp_all
  show ?case
  proof (cases "m \<in> set ms")
    case True
    show ?thesis
    proof (cases "bibEntries (m_key m0)")
      case None
      with Cons.IH [OF sorted _ True Cons.prems(4), of new cits] Cons.prems(2) show ?thesis by simp
    next
      case (Some entry)
      from Cons.prems(2) j have "\<forall>m \<in> set ms. match_in (joinPlainText ?new') m" by simp
      from Cons.IH [OF sorted this True Cons.prems(4)] Some show ?thesis
        by (simp add: Let_def split_beta)
    qed
  next
    case False
    with Cons.prems(3) have eq: "m = m0" by simp
    with Cons.prems(4) obtain entry where Some: "bibEntries (m_key m0) = Some entry" by auto
    have "placed ?new' m0" by (rule replace_step_places [OF m0])
    moreover from Cons.prems(2) before
    have "\<forall>m \<in> set ms. m_end m = m_start m + length (fullMatch m) \<and> m_end m \<le> m_start m0"
      by (simp add: match_in_def)
    ultimately have "placed (fst (replace_loop bibEntries style ms (?new', c))) m0" for c
      by (rule replace_loop_keeps)
    with Some eq show ?thesis
      by (simp add: Let_def split_beta)
  qed
qed

lemma exec_all_sorted:
  "sorted_wrt (\<lambda>a b. index a + length (whole a) \<le> index b) (exec_all pattern prev pos skip s)"
proof (induction pattern prev pos skip s rule: exec_all.induct)
  case (3 pattern prev pos c cs)
  show ?case
  proof (cases "pattern prev (c # cs)")
    case None
    with 3 show ?thesis by simp
  next
    case (Some gl)
    obtain g len where gl: "gl = (g, len)" by (cases gl)
    have "pos + length (take len (c # cs)) \<le> index m"
      if "m \<in> set (exec_all pattern (Some c) (Suc pos) (len - 1) cs)" for m
      using exec_all_sound [OF that] by (cases len) simp_all
    with "3.IH"(2) [OF Some gl [symmetric]] Some gl show ?thesis
      by simp
  qed
qed simp_all

lemma find_citation_matches_sorted:
  "sorted_wrt (\<lambda>a b. m_end a \<le> m_start b) (find_citation_matches pattern rts)"
  unfolding find_citation_matches_def
  by (simp add: sorted_wrt_map to_citation_match_def sorted_wrt_filter exec_all_sorted)

lemma process_location_places:
  assumes "m \<in> set (find_citation_matches pattern rts)" and "bibEntries (m_key m) \<noteq> None"
  shows "placed (process_location pattern bibEntries style rts) m"
proof -
  let ?ms = "find_citation_matches pattern rts"
  from assms(1) have ne: "?ms \<noteq> []" by auto
  have "placed (fst (replace_loop bibEntries style (rev ?ms) (rts, []))) m"
    by (rule replace_loop_places)
       (use assms in \<open>simp_all add: sorted_wrt_rev find_citation_matches_sorted find_citation_matches_in\<close>)
  with ne show ?thesis
    by (simp add: process_location_def Let_def)
qed

text \<open>The citations of the block: those of each location, location after location.\<close>

lemma citation_loop_citations:
  "fst (snd (citation_locations_loop pattern bibEntries style locs (b, cits, pa))) =
     cits @ concat (map (\<lambda>l. map (\<lambda>m. make_citation m (formatCitation (the (bibEntries (m_key m))) style))
                          (filter (\<lambda>m. bibEntries (m_key m) \<noteq> None)
                             (rev (find_citation_matches pattern (richTexts l))))) locs)"
proof (induction locs arbitrary: b cits pa)
  case Nil
  then show ?case by simp
next
  case (Cons l rest)
  show ?case
  proof (cases "find_citation_matches pattern (richTexts l) = []")
    case True
    then show ?thesis by (simp add: Cons.IH)
  next
    case False
    then show ?thesis
      using replace_loop_citations [of bibEntries style "rev (find_citation_matches pattern (richTexts l))"
          "richTexts l" cits]
      by (simp add: Let_def split_beta Cons.IH)
  qed
qed

lemma extract_citations_citations:
  assumes "citation_regex (in_text_citation_format config) = Some pattern"
  shows "citations (snd (extractCitationsFromBlock block config bibEntries)) =
     concat (map (\<lambda>l. map (\<lambda>m. make_citation m (formatCitation (the (bibEntries (m_key m)))
                                 (if bibliography_format_simplified_ieee config then simplified_ieee else apa)))
                          (filter (\<lambda>m. bibEntries (m_key m) \<noteq> None)
                             (rev (find_citation_matches pattern (richTexts l)))))
               (getAllRichTextLocations block))"
  using assms citation_loop_citations [of pattern bibEntries _ "getAllRichTextLocations block" block "[]" False]
  by (cases "getAllRichTextLocations block = []")
     (simp_all add: extractCitationsFromBlock_def Let_def split_beta)

text \<open>
  What the extraction does with a match that it keeps for a location: the text of the match
  stays at its offsets; when its key is absent no span refers to it and no record has it;
  when its key is present its marker span is at its offset and its record is among the
  citations.
\<close>

lemma kept_match_soft_failure:
  assumes fmt: "citation_regex (in_text_citation_format config) = Some pattern"
    and i: "i < length (getAllRichTextLocations block)"
    and m: "m \<in> set (find_citation_matches pattern (richTexts (getAllRichTextLocations block ! i)))"
    and fresh: "\<forall>s \<in> set (richTexts (getAllRichTextLocations block ! i)). CitationRef s = None"
  shows "let result = extractCitationsFromBlock block config bibEntries;
             out = richTexts (getAllRichTextLocations (fst result) ! i)
         in take (length (fullMatch m)) (drop (m_start m) (joinPlainText out)) = fullMatch m
          \<and> map Key (citations (snd result)) =
              concat (map (\<lambda>l. map m_key (filter (\<lambda>m'. bibEntries (m_key m') \<noteq> None)
                                             (rev (find_citation_matches pattern (richTexts l)))))
                        (getAllRichTextLocations block))
          \<and> (case bibEntries (m_key m) of
               None \<Rightarrow>
                 (\<forall>s \<in> set out. CitationRef s \<noteq> Some (m_key m))
                 \<and> (\<forall>c \<in> set (citations (snd result)). Key c \<noteq> m_key m)
             | Some entry \<Rightarrow>
                 (\<exists>pre post.
                    out = pre @
                      \<lparr>PlainText = fullMatch m,
                       Text = Some \<lparr>Content = fullMatch m, Link = None\<rparr>,
                       Annotation = \<lparr>Bold = False, Italic = False, Strikethrough = False,
                                     Underline = False, Code = False, Color = ''default''\<rparr>,
                       Equation = None, Mention = None, InternalHref = None, Href = None,
                       IsFootnoteMarker = None, FootnoteRef = None,
                       IsCitationMarker = Some True, CitationRef = Some (m_key m)\<rparr> # post
                    \<and> length (joinPlainText pre) = m_start m)
                 \<and> \<lparr>Key = m_key m,
                     FormattedEntry =
                       (if bibliography_format_simplified_ieee config then ieee_formatted entry
                        else apa_formatted entry),
                     Authors = authors entry, Year = year entry, Index = None,
                     SourceBlockIds = []\<rparr> \<in> set (citations (snd result)))"
proof -
  let ?style = "if bibliography_format_simplified_ieee config then simplified_ieee else apa"
  let ?result = "extractCitationsFromBlock block config bibEntries"
  let ?loc = "getAllRichTextLocations block ! i"
  let ?rts = "richTexts ?loc"
  let ?out = "process_location pattern bibEntries ?style ?rts"
  let ?mk = "\<lambda>m. make_citation m (formatCitation (the (bibEntries (m_key m))) ?style)"
  have out: "richTexts (getAllRichTextLocations (fst ?result) ! i) = ?out"
    using i by (simp add: extract_citations_locations fmt)
  have cits: "set (citations (snd ?result)) =
      (\<Union>l \<in> set (getAllRichTextLocations block).
         ?mk ` {m \<in> set (find_citation_matches pattern (richTexts l)). bibEntries (m_key m) \<noteq> None})"
    by (auto simp add: extract_citations_citations [OF fmt])
  have keys: "map Key (citations (snd ?result)) =
              concat (map (\<lambda>l. map m_key (filter (\<lambda>m'. bibEntries (m_key m') \<noteq> None)
                                             (rev (find_citation_matches pattern (richTexts l)))))
                        (getAllRichTextLocations block))"
    unfolding extract_citations_citations [OF fmt]
    by (simp add: map_concat comp_def make_citation_def)
  have tok: "take (length (fullMatch m)) (drop (m_start m) (joinPlainText ?out)) = fullMatch m"
    using find_citation_matches_in(1) [OF m] by (simp add: process_location_join match_in_def)
  have rest: "case bibEntries (m_key m) of
               None \<Rightarrow>
                 (\<forall>s \<in> set ?out. CitationRef s \<noteq> Some (m_key m))
                 \<and> (\<forall>c \<in> set (citations (snd ?result)). Key c \<noteq> m_key m)
             | Some entry \<Rightarrow>
                 (\<exists>pre post. ?out = pre @ markerText m # post
                              \<and> length (joinPlainText pre) = m_start m)
                 \<and> make_citation m (formatCitation entry ?style) \<in> set (citations (snd ?result))"
  proof (cases "bibEntries (m_key m)")
    case None
    have "CitationRef s \<noteq> Some (m_key m)" if "s \<in> set ?out" for s
      using process_location_spans [OF that]
    proof
      assume "\<exists>m' \<in> set (find_citation_matches pattern ?rts).
                bibEntries (m_key m') \<noteq> None \<and> span_of (markerText m') s"
      then obtain m' where "bibEntries (m_key m') \<noteq> None" "span_of (markerText m') s" by blast
      with span_of_fields [OF this(2)] None show ?thesis
        by (auto simp: markerText_def)
    next
      assume "\<exists>s0 \<in> set ?rts. span_of s0 s"
      then obtain s0 where "s0 \<in> set ?rts" "span_of s0 s" by blast
      with span_of_fields [OF this(2)] fresh show ?thesis by simp
    qed
    moreover have "Key c \<noteq> m_key m" if "c \<in> set (citations (snd ?result))" for c
      using that None unfolding cits by (auto simp: make_citation_def)
    ultimately show ?thesis using None by simp
  next
    case (Some entry)
    then have "placed ?out m"
      by (intro process_location_places [OF m]) simp
    moreover have "?mk m \<in> set (citations (snd ?result))"
    proof -
      have "m \<in> {m \<in> set (find_citation_matches pattern ?rts). bibEntries (m_key m) \<noteq> None}"
        using m Some by simp
      then have "?mk m \<in> ?mk ` {m \<in> set (find_citation_matches pattern ?rts).
                                   bibEntries (m_key m) \<noteq> None}"
        by (rule imageI)
      moreover have "?loc \<in> set (getAllRichTextLocations block)"
        using i by simp
      ultimately show ?thesis unfolding cits by blast
    qed
    ultimately show ?thesis using Some by (simp add: placed_def)
  qed
  have mt: "markerText m =
      \<lparr>PlainText = fullMatch m,
       Text = Some \<lparr>Content = fullMatch m, Link = None\<rparr>,
       Annotation = \<lparr>Bold = False, Italic = False, Strikethrough = False,
                     Underline = False, Code = False, Color = ''default''\<rparr>,
       Equation = None, Mention = None, InternalHref = None, Href = None,
       IsFootnoteMarker = None, FootnoteRef = None,
       IsCitationMarker = Some True, CitationRef = Some (m_key m)\<rparr>"
    by (simp add: markerText_def default_annotation_def)
  have mc: "make_citation m (formatCitation entry ?style) =
      \<lparr>Key = m_key m,
       FormattedEntry =
         (if bibliography_format_simplified_ieee config then ieee_formatted entry
          else apa_formatted entry),
       Authors = authors entry, Year = year entry, Index = None,
       SourceBlockIds = []\<rparr>" for entry
    by (simp add: make_citation_def formatCitation_def)
  from tok keys rest show ?thesis
    unfolding Let_def out mt mc by (intro conjI)
qed

section \<open>Runs and positions\<close>

lemma join_take_mono:
  "i \<le> j \<Longrightarrow> length (joinPlainText (take i rts)) \<le> length (joinPlainText (take j rts))"
proof -
  assume "i \<le> j"
  then have "take j rts = take i rts @ take (j - i) (drop i rts)"
    by (metis le_add_diff_inverse take_add)
  then show ?thesis by simp
qed

lemma run_holds_unique:
  assumes "run_holds rts i p" and "run_holds rts j p"
  shows "i = j"
proof (rule ccontr)
  assume "i \<noteq> j"
  then consider "Suc i \<le> j" | "Suc j \<le> i" by linarith
  then show False
  proof cases
    case 1
    from join_take_mono [OF this, of rts] assms show False by (simp add: run_holds_def)
  next
    case 2
    from join_take_mono [OF this, of rts] assms show False by (simp add: run_holds_def)
  qed
qed

lemma run_holds_Cons:
  "run_holds (x # xs) i p \<longleftrightarrow>
     (if i = 0 then p < length (PlainText x)
      else length (PlainText x) \<le> p \<and> run_holds xs (i - 1) (p - length (PlainText x)))"
  by (cases i) (auto simp: run_holds_def)

lemma find_run_sound:
  "cur \<le> p \<Longrightarrow> p < cur + length (joinPlainText rts) \<Longrightarrow>
     \<exists>j. run_holds rts j (p - cur) \<and> find_run p cur i rts = Some (i + j, Code (Annotation (rts ! j)))"
proof (induction rts arbitrary: cur i)
  case Nil
  then show ?case by simp
next
  case (Cons x xs)
  show ?case
  proof (cases "p < cur + length (PlainText x)")
    case True
    with Cons.prems have "run_holds (x # xs) 0 (p - cur)"
      and "find_run p cur i (x # xs) = Some (i + 0, Code (Annotation ((x # xs) ! 0)))"
      by (simp_all add: run_holds_Cons)
    then show ?thesis by blast
  next
    case False
    with Cons.prems have "cur + length (PlainText x) \<le> p"
      and "p < cur + length (PlainText x) + length (joinPlainText xs)" by simp_all
    from Cons.IH [OF this, of "Suc i"] obtain j where
      j: "run_holds xs j (p - (cur + length (PlainText x)))"
      and f: "find_run p (cur + length (PlainText x)) (Suc i) xs = Some (Suc i + j, Code (Annotation (xs ! j)))"
      by blast
    from j False Cons.prems have "run_holds (x # xs) (Suc j) (p - cur)"
      by (simp add: run_holds_Cons)
    moreover from f False have "find_run p cur i (x # xs) = Some (i + Suc j, Code (Annotation ((x # xs) ! Suc j)))"
      by (simp add: Let_def)
    ultimately show ?thesis by blast
  qed
qed

lemma in_code_sound:
  "cur \<le> p \<Longrightarrow> p < cur + length (joinPlainText rts) \<Longrightarrow>
     \<exists>j. run_holds rts j (p - cur) \<and> in_code p cur rts = Code (Annotation (rts ! j))"
proof (induction rts arbitrary: cur)
  case Nil
  then show ?case by simp
next
  case (Cons x xs)
  show ?case
  proof (cases "p < cur + length (PlainText x)")
    case True
    with Cons.prems have "run_holds (x # xs) 0 (p - cur)"
      and "in_code p cur (x # xs) = Code (Annotation ((x # xs) ! 0))"
      by (simp_all add: run_holds_Cons)
    then show ?thesis by blast
  next
    case False
    with Cons.prems have "cur + length (PlainText x) \<le> p"
      and "p < cur + length (PlainText x) + length (joinPlainText xs)" by simp_all
    from Cons.IH [OF this] obtain j where
      j: "run_holds xs j (p - (cur + length (PlainText x)))"
      and f: "in_code p (cur + length (PlainText x)) xs = Code (Annotation (xs ! j))"
      by blast
    from j False Cons.prems have "run_holds (x # xs) (Suc j) (p - cur)"
      by (simp add: run_holds_Cons)
    moreover from f False have "in_code p cur (x # xs) = Code (Annotation ((x # xs) ! Suc j))"
      by (simp add: Let_def)
    ultimately show ?thesis by blast
  qed
qed

lemma citation_match_not_in_code:
  assumes "m \<in> set (find_citation_matches pattern rts)"
  shows "\<exists>j. run_holds rts j (m_start m) \<and> \<not> Code (Annotation (rts ! j))"
proof -
  from find_citation_matches_in [OF assms]
  have "0 \<le> m_start m" "m_start m < 0 + length (joinPlainText rts)" and nc: "\<not> in_code (m_start m) 0 rts"
    by (simp_all add: match_in_def)
  from in_code_sound [OF this(1,2)] nc show ?thesis by auto
qed

section \<open>The characters of a sequence and their spans\<close>

lemma chars_with_simps [simp]:
  "chars_with f [] = []"
  "chars_with f (x # xs) = map (\<lambda>c. (c, f x)) (PlainText x) @ chars_with f xs"
  "chars_with f (xs @ ys) = chars_with f xs @ chars_with f ys"
  by (simp_all add: chars_with_def)

lemma map_fst_chars_with: "map fst (chars_with f rts) = joinPlainText rts"
  by (induction rts) (simp_all add: comp_def)

lemma length_chars_with [simp]: "length (chars_with f rts) = length (joinPlainText rts)"
  by (induction rts) simp_all

lemma span_format_setPlainText [simp]: "span_format (setPlainText t s) = span_format s"
  by (simp add: span_format_def setPlainText_def split: option.splits)

lemma Annotation_setPlainText [simp]: "Annotation (setPlainText t s) = Annotation s"
  by (simp add: setPlainText_def)

lemma chars_with_run:
  "run_holds rts i p \<Longrightarrow> chars_with f rts ! p = (joinPlainText rts ! p, f (rts ! i))"
proof (induction rts arbitrary: i p)
  case Nil
  then show ?case by (simp add: run_holds_def)
next
  case (Cons x xs)
  show ?case
  proof (cases i)
    case 0
    with Cons.prems have "p < length (PlainText x)" by (simp add: run_holds_Cons)
    with 0 show ?thesis by (simp add: nth_append)
  next
    case (Suc j)
    with Cons.prems have "length (PlainText x) \<le> p" "run_holds xs j (p - length (PlainText x))"
      by (simp_all add: run_holds_Cons)
    with Cons.IH [OF this(2)] Suc show ?thesis by (simp add: nth_append)
  qed
qed

lemma run_exists:
  assumes "p < length (joinPlainText rts)"
  shows "\<exists>i. run_holds rts i p"
  using find_run_sound [of 0 p rts 0] assms by auto

lemma code_at_run:
  "code_at rts p \<longleftrightarrow> (\<exists>i. run_holds rts i p \<and> Code (Annotation (rts ! i)))"
proof
  assume c: "code_at rts p"
  then obtain i where i: "run_holds rts i p" using run_exists by (auto simp: code_at_def)
  from chars_with_run [OF i, of Annotation] c show "\<exists>i. run_holds rts i p \<and> Code (Annotation (rts ! i))"
    using i by (auto simp: code_at_def)
next
  assume "\<exists>i. run_holds rts i p \<and> Code (Annotation (rts ! i))"
  then obtain i where i: "run_holds rts i p" and c: "Code (Annotation (rts ! i))" by blast
  from i have "p < length (joinPlainText (take (Suc i) rts))" by (simp add: run_holds_def)
  also have "\<dots> \<le> length (joinPlainText rts)"
    by (metis append_take_drop_id joinPlainText_simps(3) le_add1 length_append)
  finally have "p < length (joinPlainText rts)" .
  with chars_with_run [OF i, of Annotation] c show "code_at rts p" by (simp add: code_at_def)
qed

text \<open>The characters of the two sides of a cut, with any property that a cut keeps.\<close>

lemma split_loop_chars:
  assumes keep: "\<And>t s. f (setPlainText t s) = f s"
  shows "split_loop splitCharPos currentPos (before, after) rts = (b, a) \<Longrightarrow>
     after = [] \<or> splitCharPos \<le> currentPos \<Longrightarrow>
     chars_with f b = chars_with f before @ take (splitCharPos - currentPos) (chars_with f rts)
   \<and> chars_with f a = chars_with f after @ drop (splitCharPos - currentPos) (chars_with f rts)"
proof (induction rts arbitrary: currentPos before after)
  case Nil
  then show ?case by simp
next
  case (Cons richText rest)
  let ?len = "length (PlainText richText)"
  show ?case
  proof (cases "splitCharPos \<le> currentPos")
    case True
    with Cons.prems show ?thesis
      by (auto simp add: split_loop_past)
  next
    case False
    with Cons.prems have emp: "after = []" by simp
    show ?thesis
    proof (cases "splitCharPos \<ge> currentPos + ?len")
      case True
      with False Cons.prems
      have "split_loop splitCharPos (currentPos + ?len) (before @ [richText], after) rest = (b, a)"
        by (simp add: Let_def)
      from Cons.IH [OF this] emp True show ?thesis
        by simp
    next
      case straddle: False
      define off where "off = splitCharPos - currentPos"
      have off: "0 < off" "off < ?len" using False straddle by (simp_all add: off_def)
      from False straddle Cons.prems off
      have run: "split_loop splitCharPos (currentPos + ?len)
             (before @ [setPlainText (take off (PlainText richText)) richText],
              after @ [setPlainText (drop off (PlainText richText)) richText]) rest = (b, a)"
        by (simp add: Let_def off_def)
      have past: "splitCharPos \<le> currentPos + ?len" using straddle by simp
      from run have "b = before @ [setPlainText (take off (PlainText richText)) richText]"
        and "a = after @ [setPlainText (drop off (PlainText richText)) richText] @ rest"
        by (simp_all add: split_loop_past [OF past])
      with off past show ?thesis
        by (simp add: off_def keep take_map drop_map)
    qed
  qed
qed

lemma split_chars_take:
  assumes "\<And>t s. f (setPlainText t s) = f s"
  shows "chars_with f (fst (splitRichTextsAtCharPosition rts k)) = take k (chars_with f rts)"
  using split_loop_chars [of f k 0 "[]" "[]" rts, OF assms]
  by (cases "split_loop k 0 ([], []) rts") (simp add: splitRichTextsAtCharPosition_def)

lemma split_chars_drop:
  assumes "\<And>t s. f (setPlainText t s) = f s"
  shows "chars_with f (snd (splitRichTextsAtCharPosition rts k)) = drop k (chars_with f rts)"
  using split_loop_chars [of f k 0 "[]" "[]" rts, OF assms]
  by (cases "split_loop k 0 ([], []) rts") (simp add: splitRichTextsAtCharPosition_def)

text \<open>
  A list of which a stretch is replaced by a list of the same length is as before at
  every position outside the stretch.
\<close>

lemma nth_outside_replaced:
  assumes "length X = length (take n (drop s C))" and "q < length C" and "q < s \<or> s + n \<le> q"
  shows "(take s C @ X @ drop n (drop s C)) ! q = C ! q"
proof (cases "q < s")
  case True
  with assms(2) show ?thesis by (simp add: nth_append)
next
  case False
  with assms(3) have q: "s + n \<le> q" by simp
  with assms(2) have lx: "length X = n" and lt: "length (take s C) = s" using assms(1) by simp_all
  from q have a: "\<not> q < s" "\<not> q - s < n" by simp_all
  have "(take s C @ X @ drop n (drop s C)) ! q = (X @ drop n (drop s C)) ! (q - s)"
    using a(1) lt by (simp add: nth_append)
  also have "\<dots> = drop n (drop s C) ! (q - s - n)"
    using a(2) lx by (simp add: nth_append)
  also have "\<dots> = C ! (s + (n + (q - s - n)))"
    using assms(2) q by simp
  also have "s + (n + (q - s - n)) = q" using q by simp
  finally show ?thesis .
qed

lemma length_replaced:
  assumes "length X = length (take n (drop s C))"
  shows "length (take s C @ X @ drop n (drop s C)) = length C"
  using assms by (simp add: min_def)


section \<open>Tokens in code runs: citations\<close>

lemma replace_step_chars:
  assumes keep: "\<And>t s. f (setPlainText t s) = f s"
    and m: "match_in (joinPlainText new) m"
    and q: "q < length (joinPlainText new)" "q < m_start m \<or> m_end m \<le> q"
  shows "chars_with f (fst (splitRichTextsAtCharPosition new (m_start m)) @ [markerText m]
            @ snd (splitRichTextsAtCharPosition
                     (snd (splitRichTextsAtCharPosition new (m_start m))) (m_end m - m_start m))) ! q
         = chars_with f new ! q"
proof -
  let ?C = "chars_with f new"
  let ?n = "length (fullMatch m)"
  let ?X = "map (\<lambda>c. (c, f (markerText m))) (fullMatch m)"
  from m have e: "m_end m = m_start m + ?n"
    and t: "take ?n (drop (m_start m) (joinPlainText new)) = fullMatch m"
    by (simp_all add: match_in_def)
  from arg_cong [OF t, of length] have "length (take ?n (drop (m_start m) ?C)) = ?n"
    by simp
  then have lx: "length ?X = length (take ?n (drop (m_start m) ?C))" by simp
  have "chars_with f (fst (splitRichTextsAtCharPosition new (m_start m)) @ [markerText m]
            @ snd (splitRichTextsAtCharPosition
                     (snd (splitRichTextsAtCharPosition new (m_start m))) (m_end m - m_start m)))
        = take (m_start m) ?C @ ?X @ drop ?n (drop (m_start m) ?C)"
    by (simp add: split_chars_take [OF keep] split_chars_drop [OF keep] e markerText_def)
  also have "\<dots> ! q = ?C ! q"
    by (rule nth_outside_replaced [OF lx]) (use q e in simp_all)
  finally show ?thesis .
qed

lemma replace_loop_chars:
  assumes keep: "\<And>t s. f (setPlainText t s) = f s"
  shows "\<forall>m \<in> set ms. match_in (joinPlainText new) m \<Longrightarrow>
     \<forall>m \<in> set ms. bibEntries (m_key m) \<noteq> None \<longrightarrow> q < m_start m \<or> m_end m \<le> q \<Longrightarrow>
     q < length (joinPlainText new) \<Longrightarrow>
     chars_with f (fst (replace_loop bibEntries style ms (new, cits))) ! q = chars_with f new ! q"
proof (induction ms arbitrary: new cits)
  case Nil
  then show ?case by simp
next
  case (Cons m ms)
  show ?case
  proof (cases "bibEntries (m_key m)")
    case None
    with Cons show ?thesis by simp
  next
    case (Some entry)
    let ?new' = "fst (splitRichTextsAtCharPosition new (m_start m)) @ [markerText m]
            @ snd (splitRichTextsAtCharPosition
                     (snd (splitRichTextsAtCharPosition new (m_start m))) (m_end m - m_start m))"
    from Cons.prems have j: "joinPlainText ?new' = joinPlainText new"
      by (intro replace_step_join) simp
    from Cons.prems Some have c: "chars_with f ?new' ! q = chars_with f new ! q"
      by (intro replace_step_chars [OF keep]) simp_all
    from Cons.prems j have "\<forall>m \<in> set ms. match_in (joinPlainText ?new') m"
      and "\<forall>m \<in> set ms. bibEntries (m_key m) \<noteq> None \<longrightarrow> q < m_start m \<or> m_end m \<le> q"
      and "q < length (joinPlainText ?new')" by simp_all
    from Cons.IH [OF this] c Some show ?thesis
      by (simp add: Let_def split_beta)
  qed
qed

lemma process_location_chars:
  assumes keep: "\<And>t s. f (setPlainText t s) = f s"
    and out: "\<forall>m \<in> set (find_citation_matches pattern rts).
               bibEntries (m_key m) \<noteq> None \<longrightarrow> q < m_start m \<or> m_end m \<le> q"
    and q: "q < length (joinPlainText rts)"
  shows "chars_with f (process_location pattern bibEntries style rts) ! q = chars_with f rts ! q"
proof (cases "find_citation_matches pattern rts = []")
  case True
  then show ?thesis by (simp add: process_location_def)
next
  case False
  have "chars_with f (fst (replace_loop bibEntries style (rev (find_citation_matches pattern rts))
                        (rts, []))) ! q = chars_with f rts ! q"
    by (rule replace_loop_chars [OF keep]) (use out q find_citation_matches_in in auto)
  with False show ?thesis by (simp add: process_location_def Let_def)
qed

text \<open>Two matches of one loop do not overlap.\<close>

lemma exec_all_apart:
  assumes "r \<in> set (exec_all pattern prev pos skip s)"
    and "r' \<in> set (exec_all pattern prev pos skip s)" and "index r \<noteq> index r'"
  shows "index r + length (whole r) \<le> index r' \<or> index r' + length (whole r') \<le> index r"
proof -
  let ?ms = "exec_all pattern prev pos skip s"
  from assms obtain i j where i: "i < length ?ms" "?ms ! i = r" and j: "j < length ?ms" "?ms ! j = r'"
    by (auto simp: in_set_conv_nth)
  with assms(3) have "i \<noteq> j" by auto
  then consider "i < j" | "j < i" by linarith
  then show ?thesis
  proof cases
    case 1
    with sorted_wrt_nth_less [OF exec_all_sorted, of i j pattern prev pos skip s] i j
    show ?thesis by simp
  next
    case 2
    with sorted_wrt_nth_less [OF exec_all_sorted, of j i pattern prev pos skip s] i j
    show ?thesis by simp
  qed
qed

lemma in_code_code_at:
  assumes "p < length (joinPlainText rts)"
  shows "in_code p 0 rts = code_at rts p"
proof -
  from in_code_sound [of 0 p rts] assms obtain j where
    j: "run_holds rts j p" and c: "in_code p 0 rts = Code (Annotation (rts ! j))" by auto
  show ?thesis
  proof
    assume "in_code p 0 rts"
    with j c show "code_at rts p" unfolding code_at_run by blast
  next
    assume "code_at rts p"
    then obtain i where "run_holds rts i p" "Code (Annotation (rts ! i))"
      unfolding code_at_run by blast
    with run_holds_unique [OF j this(1)] c show "in_code p 0 rts" by simp
  qed
qed

text \<open>The matches that the extraction keeps for a location: the regex matches outside code.\<close>

lemma find_citation_matches_code_at:
  "find_citation_matches pattern rts =
     map to_citation_match
       (filter (\<lambda>r. \<not> code_at rts (index r)) (exec_all pattern None 0 0 (joinPlainText rts)))"
proof -
  have "filter (\<lambda>r. \<not> in_code (index r) 0 rts) (exec_all pattern None 0 0 (joinPlainText rts))
      = filter (\<lambda>r. \<not> code_at rts (index r)) (exec_all pattern None 0 0 (joinPlainText rts))"
  proof (rule filter_cong [OF refl])
    fix r assume "r \<in> set (exec_all pattern None 0 0 (joinPlainText rts))"
    from exec_all_sound [OF this] have "index r < length (joinPlainText rts)" by simp
    from in_code_code_at [OF this]
    show "(\<not> in_code (index r) 0 rts) = (\<not> code_at rts (index r))" by simp
  qed
  then show ?thesis by (simp add: find_citation_matches_def)
qed

lemma code_token_untouched:
  assumes keep: "\<And>t s. f (setPlainText t s) = f s"
    and r: "r \<in> set (exec_all pattern None 0 0 (joinPlainText rts))"
    and c: "code_at rts (index r)"
    and q: "index r \<le> q" "q < index r + length (whole r)"
  shows "chars_with f (process_location pattern bibEntries style rts) ! q = chars_with f rts ! q"
proof (rule process_location_chars [OF keep])
  from exec_all_sound [OF r] have "take (length (whole r)) (drop (index r) (joinPlainText rts)) = whole r"
    and "index r < length (joinPlainText rts)" by simp_all
  from arg_cong [OF this(1), of length] this(2)
  have "index r + length (whole r) \<le> length (joinPlainText rts)"
    by (simp add: min_def split: if_splits)
  with q show "q < length (joinPlainText rts)" by simp
  show "\<forall>m \<in> set (find_citation_matches pattern rts).
               bibEntries (m_key m) \<noteq> None \<longrightarrow> q < m_start m \<or> m_end m \<le> q"
  proof (intro ballI impI)
    fix m assume "m \<in> set (find_citation_matches pattern rts)"
    then obtain r' where r': "r' \<in> set (exec_all pattern None 0 0 (joinPlainText rts))"
      and nc: "\<not> code_at rts (index r')" and m: "m = to_citation_match r'"
      unfolding find_citation_matches_code_at by auto
    from nc c have "index r \<noteq> index r'" by auto
    from exec_all_apart [OF r r' this] q m show "q < m_start m \<or> m_end m \<le> q"
      by (auto simp: to_citation_match_def)
  qed
qed


text \<open>The keys of the records: those of the regex matches outside code whose key is in the map.\<close>

lemma citation_keys_outside_code:
  assumes "citation_regex (in_text_citation_format config) = Some pattern"
  shows "map Key (citations (snd (extractCitationsFromBlock block config bibEntries))) =
     concat (map (\<lambda>l. map group1
                         (filter (\<lambda>r. \<not> code_at (richTexts l) (index r) \<and> bibEntries (group1 r) \<noteq> None)
                            (rev (exec_all pattern None 0 0 (joinPlainText (richTexts l))))))
               (getAllRichTextLocations block))"
proof -
  have "map Key (map (\<lambda>m. make_citation m (formatCitation (the (bibEntries (m_key m))) style))
                  (filter (\<lambda>m. bibEntries (m_key m) \<noteq> None) (rev (find_citation_matches pattern rts))))
        = map group1 (filter (\<lambda>r. \<not> code_at rts (index r) \<and> bibEntries (group1 r) \<noteq> None)
                        (rev (exec_all pattern None 0 0 (joinPlainText rts))))" for rts style
    unfolding find_citation_matches_code_at
    by (simp add: rev_map rev_filter filter_map comp_def make_citation_def to_citation_match_def
          conj_commute)
  then show ?thesis
    unfolding extract_citations_citations [OF assms] by (simp add: map_concat comp_def)
qed


text \<open>
  Claim C4. During citation extraction, a matched token whose key is absent from the
  bibliography map keeps its literal text in the output sequence and gets no Citation
  record, while a matched token of the same location whose key is present is replaced by
  its marker span and recorded. For a match \<open>r\<close> of the configured pattern that starts
  outside code in the \<open>i\<close>-th location of a block whose spans carry no citation reference
  yet: the text of \<open>r\<close> is at its offsets in the output; when the key is absent no span of
  the output refers to it and no citation has it; when the key is present the output has,
  at the offset of \<open>r\<close>, the marker span with the text of the token, the default annotation,
  the marker flag and the key, and the citations of the block have a record with the key,
  the formatted entry of the configured style, the authors and the year of the entry, and
  no source block. The keys of the records are, location by location, the keys of the
  matches outside code whose key is present, from the last to the first: there is no
  other record.
\<close>

theorem unresolved_key_soft_failure:
  assumes fmt: "citation_regex (in_text_citation_format config) = Some pattern"
    and i: "i < length (getAllRichTextLocations block)"
    and r: "r \<in> set (exec_all pattern None 0 0
                       (joinPlainText (richTexts (getAllRichTextLocations block ! i))))"
    and outside: "\<not> code_at (richTexts (getAllRichTextLocations block ! i)) (index r)"
    and fresh: "\<forall>s \<in> set (richTexts (getAllRichTextLocations block ! i)). CitationRef s = None"
  shows "let result = extractCitationsFromBlock block config bibEntries;
             out = richTexts (getAllRichTextLocations (fst result) ! i)
         in take (length (whole r)) (drop (index r) (joinPlainText out)) = whole r
          \<and> map Key (citations (snd result)) =
              concat (map (\<lambda>l. map group1
                                  (filter (\<lambda>r'. \<not> code_at (richTexts l) (index r')
                                                \<and> bibEntries (group1 r') \<noteq> None)
                                     (rev (exec_all pattern None 0 0
                                             (joinPlainText (richTexts l))))))
                        (getAllRichTextLocations block))
          \<and> (case bibEntries (group1 r) of
               None \<Rightarrow>
                 (\<forall>s \<in> set out. CitationRef s \<noteq> Some (group1 r))
                 \<and> (\<forall>c \<in> set (citations (snd result)). Key c \<noteq> group1 r)
             | Some entry \<Rightarrow>
                 (\<exists>pre post.
                    out = pre @
                      \<lparr>PlainText = whole r,
                       Text = Some \<lparr>Content = whole r, Link = None\<rparr>,
                       Annotation = \<lparr>Bold = False, Italic = False, Strikethrough = False,
                                     Underline = False, Code = False, Color = ''default''\<rparr>,
                       Equation = None, Mention = None, InternalHref = None, Href = None,
                       IsFootnoteMarker = None, FootnoteRef = None,
                       IsCitationMarker = Some True, CitationRef = Some (group1 r)\<rparr> # post
                    \<and> length (joinPlainText pre) = index r)
                 \<and> \<lparr>Key = group1 r,
                     FormattedEntry =
                       (if bibliography_format_simplified_ieee config then ieee_formatted entry
                        else apa_formatted entry),
                     Authors = authors entry, Year = year entry, Index = None,
                     SourceBlockIds = []\<rparr> \<in> set (citations (snd result)))"
proof -
  let ?m = "to_citation_match r"
  have m: "?m \<in> set (find_citation_matches pattern (richTexts (getAllRichTextLocations block ! i)))"
    unfolding find_citation_matches_code_at using r outside by simp
  have fields: "m_key ?m = group1 r" "m_start ?m = index r" "fullMatch ?m = whole r"
    by (simp_all add: to_citation_match_def)
  from kept_match_soft_failure [OF fmt i m fresh, of bibEntries]
       citation_keys_outside_code [OF fmt, of block bibEntries]
  show ?thesis
    unfolding fields Let_def by simp
qed

theorem unresolved_key_soft_failure_witness:
  "exec_all (citation_pattern ''[@'' (CHR '']'')) None 0 0
       (joinPlainText (richTexts (getAllRichTextLocations cited_paragraph ! 0)))
     = [\<lparr>index = 11, whole = ''[@smith2020]'', group1 = ''smith2020''\<rparr>,
        \<lparr>index = 30, whole = ''[@doe2019]'', group1 = ''doe2019''\<rparr>]
   \<and> \<not> code_at (richTexts (getAllRichTextLocations cited_paragraph ! 0)) 11
   \<and> \<not> code_at (richTexts (getAllRichTextLocations cited_paragraph ! 0)) 30
   \<and> smith_only ''doe2019'' = None
   \<and> smith_only ''smith2020'' = Some smith_entry
   \<and> take 10 (drop 30
         (joinPlainText (richTexts (getAllRichTextLocations
            (fst (extractCitationsFromBlock cited_paragraph pandoc_config smith_only)) ! 0))))
       = ''[@doe2019]''
   \<and> \<not> (\<exists>c \<in> set (citations (snd (extractCitationsFromBlock cited_paragraph pandoc_config smith_only))).
           Key c = ''doe2019'')
   \<and> (\<exists>pre post. richTexts (getAllRichTextLocations
         (fst (extractCitationsFromBlock cited_paragraph pandoc_config smith_only)) ! 0)
           = pre @ (plain ''[@smith2020]'')\<lparr>IsCitationMarker := Some True,
                                             CitationRef := Some ''smith2020''\<rparr> # post
         \<and> length (joinPlainText pre) = 11)
   \<and> \<lparr>Key = ''smith2020'', FormattedEntry = ''Smith, J. (2020).'', Authors = ''Smith'',
       Year = ''2020'', Index = None, SourceBlockIds = []\<rparr>
       \<in> set (citations (snd (extractCitationsFromBlock cited_paragraph pandoc_config smith_only)))
   \<and> map Key (citations (snd (extractCitationsFromBlock cited_paragraph pandoc_config smith_only)))
       = [''smith2020'']"
proof -
  let ?pattern = "citation_pattern ''[@'' (CHR '']'')"
  let ?result = "extractCitationsFromBlock cited_paragraph pandoc_config smith_only"
  let ?rts = "richTexts (getAllRichTextLocations cited_paragraph ! 0)"
  let ?smith = "\<lparr>index = 11, whole = ''[@smith2020]'', group1 = ''smith2020''\<rparr>"
  let ?doe = "\<lparr>index = 30, whole = ''[@doe2019]'', group1 = ''doe2019''\<rparr>"
  have fmt: "citation_regex (in_text_citation_format pandoc_config) = Some ?pattern"
    by (simp add: citation_regex_def pandoc_config_def)
  have i: "0 < length (getAllRichTextLocations cited_paragraph)"
    by code_simp
  have ms: "exec_all ?pattern None 0 0 (joinPlainText ?rts) = [?smith, ?doe]"
    by code_simp
  have nc: "\<not> code_at ?rts 11" "\<not> code_at ?rts 30"
    by code_simp+
  have fresh: "\<forall>s \<in> set ?rts. CitationRef s = None"
    by code_simp
  have doe: "smith_only ''doe2019'' = None"
    and smith: "smith_only ''smith2020'' = Some smith_entry"
    by (simp_all add: smith_only_def)
  have style: "bibliography_format_simplified_ieee pandoc_config = False"
    by (simp add: pandoc_config_def)
  have span: "\<lparr>PlainText = ''[@smith2020]'',
       Text = Some \<lparr>Content = ''[@smith2020]'', Link = None\<rparr>,
       Annotation = \<lparr>Bold = False, Italic = False, Strikethrough = False,
                     Underline = False, Code = False, Color = ''default''\<rparr>,
       Equation = None, Mention = None, InternalHref = None, Href = None,
       IsFootnoteMarker = None, FootnoteRef = None,
       IsCitationMarker = Some True, CitationRef = Some ''smith2020''\<rparr>
     = (plain ''[@smith2020]'')\<lparr>IsCitationMarker := Some True, CitationRef := Some ''smith2020''\<rparr>"
    by (simp add: plain_def default_annotation_def)
  have rcd: "\<lparr>Key = ''smith2020'',
       FormattedEntry = (if False then ieee_formatted smith_entry else apa_formatted smith_entry),
       Authors = authors smith_entry, Year = year smith_entry, Index = None, SourceBlockIds = []\<rparr>
     = \<lparr>Key = ''smith2020'', FormattedEntry = ''Smith, J. (2020).'', Authors = ''Smith'',
        Year = ''2020'', Index = None, SourceBlockIds = []\<rparr>"
    by (simp add: smith_entry_def)
  have nc': "\<not> code_at ?rts (index ?doe)" "\<not> code_at ?rts (index ?smith)"
    using nc by simp_all
  have len: "length ''[@doe2019]'' = 10"
    by simp
  have "?doe \<in> set (exec_all ?pattern None 0 0 (joinPlainText ?rts))"
    unfolding ms by simp
  from unresolved_key_soft_failure [OF fmt i this nc'(1) fresh, of smith_only]
  have d: "take (length ''[@doe2019]'')
         (drop 30 (joinPlainText (richTexts (getAllRichTextLocations (fst ?result) ! 0))))
       = ''[@doe2019]''
     \<and> (\<forall>c \<in> set (citations (snd ?result)). Key c \<noteq> ''doe2019'')"
    unfolding Let_def RegExpMatch.select_convs doe option.case by blast
  have "?smith \<in> set (exec_all ?pattern None 0 0 (joinPlainText ?rts))"
    unfolding ms by simp
  from unresolved_key_soft_failure [OF fmt i this nc'(2) fresh, of smith_only]
  have s0: "(\<exists>pre post. richTexts (getAllRichTextLocations (fst ?result) ! 0)
           = pre @ (plain ''[@smith2020]'')\<lparr>IsCitationMarker := Some True,
                                             CitationRef := Some ''smith2020''\<rparr> # post
           \<and> length (joinPlainText pre) = 11)
     \<and> \<lparr>Key = ''smith2020'', FormattedEntry = ''Smith, J. (2020).'', Authors = ''Smith'',
         Year = ''2020'', Index = None, SourceBlockIds = []\<rparr> \<in> set (citations (snd ?result))"
    and k: "map Key (citations (snd ?result)) =
              concat (map (\<lambda>l. map group1
                                  (filter (\<lambda>r'. \<not> code_at (richTexts l) (index r')
                                                \<and> smith_only (group1 r') \<noteq> None)
                                     (rev (exec_all ?pattern None 0 0
                                             (joinPlainText (richTexts l))))))
                        (getAllRichTextLocations cited_paragraph))"
    unfolding Let_def RegExpMatch.select_convs smith option.case style span rcd by blast+
  have "concat (map (\<lambda>l. map group1
                            (filter (\<lambda>r'. \<not> code_at (richTexts l) (index r')
                                          \<and> smith_only (group1 r') \<noteq> None)
                               (rev (exec_all ?pattern None 0 0 (joinPlainText (richTexts l))))))
                  (getAllRichTextLocations cited_paragraph)) = [''smith2020'']"
    by code_simp
  with k have keys: "map Key (citations (snd ?result)) = [''smith2020'']" by simp
  from ms nc doe smith d [unfolded len] s0 keys show ?thesis by blast
qed

section \<open>Markers in code runs: footnotes\<close>

lemma exec_loop_cases:
  assumes "exec_loop pattern s i = Some ms"
  shows "(pattern s i = None \<and> ms = [])
       \<or> (\<exists>m rest. pattern s i = Some m
             \<and> exec_loop pattern s (match_index m + length (match_0 m)) = Some rest
             \<and> ms = m # rest)"
  using assms
  by (subst (asm) exec_loop.simps) (auto split: option.splits simp: bind_eq_Some_conv)

lemma exec_loop_sorted:
  assumes "exec_advances pattern"
  shows "exec_loop pattern s i = Some ms \<Longrightarrow>
     (\<forall>m \<in> set ms. i \<le> match_index m)
     \<and> sorted_wrt (\<lambda>a b. match_index a + length (match_0 a) \<le> match_index b) ms"
proof (induction ms arbitrary: i)
  case Nil
  then show ?case by simp
next
  case (Cons m ms)
  from exec_loop_cases [OF Cons.prems] have m: "pattern s i = Some m"
    and rest: "exec_loop pattern s (match_index m + length (match_0 m)) = Some ms"
    by auto
  from assms m have "i \<le> match_index m" by (auto simp: exec_advances_def)
  with Cons.IH [OF rest] show ?case by fastforce
qed

lemma exec_loop_apart:
  assumes "exec_advances pattern" and "exec_loop pattern s i = Some ms"
    and "r \<in> set ms" and "r' \<in> set ms" and "match_index r \<noteq> match_index r'"
  shows "match_index r + length (match_0 r) \<le> match_index r'
       \<or> match_index r' + length (match_0 r') \<le> match_index r"
proof -
  note sorted = exec_loop_sorted [OF assms(1,2), THEN conjunct2]
  from assms obtain a b where a: "a < length ms" "ms ! a = r" and b: "b < length ms" "ms ! b = r'"
    by (auto simp: in_set_conv_nth)
  with assms(5) have "a \<noteq> b" by auto
  then consider "a < b" | "b < a" by linarith
  then show ?thesis
  proof cases
    case 1
    with sorted_wrt_nth_less [OF sorted, of a b] a b show ?thesis by simp
  next
    case 2
    with sorted_wrt_nth_less [OF sorted, of b a] a b show ?thesis by simp
  qed
qed

lemma find_run_range:
  "find_run p cur i rts = Some (k, c) \<Longrightarrow> cur \<le> p \<and> p < cur + length (joinPlainText rts)"
proof (induction rts arbitrary: cur i)
  case Nil
  then show ?case by simp
next
  case (Cons x xs)
  show ?case
  proof (cases "cur \<le> p \<and> p < cur + length (PlainText x)")
    case True
    then show ?thesis by simp
  next
    case False
    with Cons.prems have "find_run p (cur + length (PlainText x)) (Suc i) xs = Some (k, c)"
      by (simp add: Let_def)
    from Cons.IH [OF this] show ?thesis by simp
  qed
qed

text \<open>The marker made of a match: its fields are those of the match, which does not start in code.\<close>

lemma marker_of_match_fields:
  assumes "m \<in> set (marker_of_match l r)"
  shows "BlockProperty (Location m) = property l" "CharStart (Location m) = match_index r"
    "FullMarker m = match_0 r" "Marker m = match_1 r" "\<not> code_at (richTexts l) (match_index r)"
proof -
  from assms obtain k c where f0: "find_run (match_index r) 0 0 (richTexts l) = Some (k, c)"
    by (cases "find_run (match_index r) 0 0 (richTexts l)") (auto simp: marker_of_match_def)
  with assms have c: "c = False"
    and m: "m = \<lparr>Marker = match_1 r, FullMarker = match_0 r,
                 Location = \<lparr>BlockProperty = property l, RichTextIndex = k,
                             CharStart = match_index r,
                             CharEnd = match_index r + length (match_0 r)\<rparr>\<rparr>"
    by (auto simp: marker_of_match_def split: if_splits)
  from f0 c have f: "find_run (match_index r) 0 0 (richTexts l) = Some (k, False)" by simp
  from m show "BlockProperty (Location m) = property l" "CharStart (Location m) = match_index r"
    "FullMarker m = match_0 r" "Marker m = match_1 r" by simp_all
  from find_run_range [OF f] have "match_index r < length (joinPlainText (richTexts l))" by simp
  from find_run_sound [of 0 "match_index r" "richTexts l" 0] this f obtain j where
    j: "run_holds (richTexts l) j (match_index r)" "\<not> Code (Annotation (richTexts l ! j))"
    by auto
  show "\<not> code_at (richTexts l) (match_index r)"
    unfolding code_at_run using j run_holds_unique by blast
qed

lemma markers_loop_Some:
  "markers_loop pattern locs = Some markers \<Longrightarrow>
     markers = concat (map (\<lambda>l. concat (map (marker_of_match l)
                                 (the (exec_loop pattern (joinPlainText (richTexts l)) 0)))) locs)"
  by (induction locs arbitrary: markers) (auto simp: bind_eq_Some_conv)

lemma markers_of_location:
  assumes loop: "markers_loop pattern locs = Some markers"
    and d: "distinct (map property locs)" and l: "l \<in> set locs"
    and ms: "exec_loop pattern (joinPlainText (richTexts l)) 0 = Some ms"
    and m: "m \<in> set markers" "BlockProperty (Location m) = property l"
  shows "\<exists>r \<in> set ms. m \<in> set (marker_of_match l r)"
proof -
  from m(1) obtain l' r where l': "l' \<in> set locs"
    and r: "r \<in> set (the (exec_loop pattern (joinPlainText (richTexts l')) 0))"
    and mr: "m \<in> set (marker_of_match l' r)"
    unfolding markers_loop_Some [OF loop] by auto
  from marker_of_match_fields(1) [OF mr] m(2) have "property l' = property l" by simp
  with d l l' have "l' = l" by (metis distinct_map inj_onD)
  with r mr ms show ?thesis by auto
qed


text \<open>Flagging the marker span changes neither the text nor the number of the characters.\<close>

lemma flag_marker_join [simp]: "joinPlainText (flag_marker marker part) = joinPlainText part"
  by (cases part) (simp_all add: flag_marker_def)

lemma take_take_drop: "take a xs @ take n (drop a xs) @ drop (n + a) xs = xs"
  by (simp only: drop_drop [symmetric] append_take_drop_id)

lemma split_markers_step_join:
  "joinPlainText (fst (splitRichTextsAtCharPosition result cs)
      @ flag_marker marker
          (fst (splitRichTextsAtCharPosition (snd (splitRichTextsAtCharPosition result cs)) n))
      @ snd (splitRichTextsAtCharPosition (snd (splitRichTextsAtCharPosition result cs)) n))
   = joinPlainText result"
  by (simp add: split_join_take split_join_drop take_take_drop)

lemma split_markers_loop_join:
  "joinPlainText (split_markers_loop ms result) = joinPlainText result"
  by (induction ms arbitrary: result)
     (simp_all add: split_beta split_join_take split_join_drop take_take_drop)

lemma split_markers_step_chars:
  assumes keep: "\<And>t s. f (setPlainText t s) = f s"
    and q: "q < length (joinPlainText result)" "q < cs \<or> cs + n \<le> q"
  shows "chars_with f (fst (splitRichTextsAtCharPosition result cs)
      @ flag_marker marker
          (fst (splitRichTextsAtCharPosition (snd (splitRichTextsAtCharPosition result cs)) n))
      @ snd (splitRichTextsAtCharPosition (snd (splitRichTextsAtCharPosition result cs)) n)) ! q
   = chars_with f result ! q"
proof -
  let ?C = "chars_with f result"
  let ?part = "fst (splitRichTextsAtCharPosition (snd (splitRichTextsAtCharPosition result cs)) n)"
  let ?X = "chars_with f (flag_marker marker ?part)"
  have "length ?X = length (joinPlainText ?part)" by simp
  also have "\<dots> = length (take n (drop cs ?C))"
    by (simp add: split_join_take split_join_drop)
  finally have lx: "length ?X = length (take n (drop cs ?C))" .
  have "chars_with f (fst (splitRichTextsAtCharPosition result cs) @ flag_marker marker ?part
      @ snd (splitRichTextsAtCharPosition (snd (splitRichTextsAtCharPosition result cs)) n))
      = take cs ?C @ ?X @ drop n (drop cs ?C)"
    by (simp add: split_chars_take [OF keep] split_chars_drop [OF keep])
  also have "\<dots> ! q = ?C ! q"
    by (rule nth_outside_replaced [OF lx]) (use q in simp_all)
  finally show ?thesis .
qed

lemma split_markers_loop_chars:
  assumes keep: "\<And>t s. f (setPlainText t s) = f s"
  shows "\<forall>m \<in> set ms. q < CharStart (Location m)
                      \<or> CharStart (Location m) + length (FullMarker m) \<le> q \<Longrightarrow>
     q < length (joinPlainText result) \<Longrightarrow>
     chars_with f (split_markers_loop ms result) ! q = chars_with f result ! q"
proof (induction ms arbitrary: result)
  case Nil
  then show ?case by simp
next
  case (Cons m ms)
  let ?cs = "CharStart (Location m)"
  let ?n = "length (FullMarker m)"
  let ?result' = "fst (splitRichTextsAtCharPosition result ?cs)
      @ flag_marker m
          (fst (splitRichTextsAtCharPosition (snd (splitRichTextsAtCharPosition result ?cs)) ?n))
      @ snd (splitRichTextsAtCharPosition (snd (splitRichTextsAtCharPosition result ?cs)) ?n)"
  from Cons.prems have c: "chars_with f ?result' ! q = chars_with f result ! q"
    by (intro split_markers_step_chars [OF keep]) simp_all
  have j: "joinPlainText ?result' = joinPlainText result" by (rule split_markers_step_join)
  from Cons.prems j have "\<forall>m \<in> set ms. q < CharStart (Location m)
                      \<or> CharStart (Location m) + length (FullMarker m) \<le> q"
    and "q < length (joinPlainText ?result')" by simp_all
  from Cons.IH [OF this] c show ?case by (simp add: split_beta)
qed

lemma set_array_sort: "set (array_sort compare xs) = set xs"
proof -
  have "set (insert_sorted compare x ys) = insert x (set ys)" for x ys
    by (induction ys) auto
  then show ?thesis
    by (induction xs) (simp_all add: array_sort_def)
qed

lemma splitRichTextWithMarkers_join:
  "joinPlainText (splitRichTextWithMarkers l markers) = joinPlainText (richTexts l)"
  by (simp add: splitRichTextWithMarkers_def Let_def split_markers_loop_join)

lemma splitRichTextWithMarkers_chars:
  assumes keep: "\<And>t s. f (setPlainText t s) = f s"
    and out: "\<forall>m \<in> set markers. BlockProperty (Location m) = property l \<longrightarrow>
                q < CharStart (Location m) \<or> CharStart (Location m) + length (FullMarker m) \<le> q"
    and q: "q < length (joinPlainText (richTexts l))"
  shows "chars_with f (splitRichTextWithMarkers l markers) ! q = chars_with f (richTexts l) ! q"
proof -
  let ?ms = "array_sort (\<lambda>a b. int (CharStart (Location b)) - int (CharStart (Location a)))
              (filter (\<lambda>m. BlockProperty (Location m) = property l) markers)"
  have "chars_with f (split_markers_loop ?ms (richTexts l)) ! q = chars_with f (richTexts l) ! q"
    by (rule split_markers_loop_chars [OF keep]) (use out q in \<open>simp_all add: set_array_sort\<close>)
  then show ?thesis by (simp add: splitRichTextWithMarkers_def Let_def)
qed


text \<open>What the loops over the locations of a block leave at one location.\<close>

lemma setChildren_paths [simp]: "all_paths (setChildrenInBlock b cs) = all_paths b"
  by (cases b) simp_all

lemma setChildren_get_at [simp]: "get_at p (setChildrenInBlock b cs) = get_at p b"
  by (cases b; cases p) simp_all

lemma fold_setter_paths:
  "all_paths (fold (\<lambda>location b. setter (property location) (g location) b) locs b) = all_paths b"
  by (induction locs arbitrary: b) (simp_all add: all_paths_setter)

lemma fold_setter_frame:
  "p \<notin> property ` set locs \<Longrightarrow> \<forall>l \<in> set locs. property l \<in> set (all_paths b) \<Longrightarrow>
     get_at p (fold (\<lambda>location b. setter (property location) (g location) b) locs b) = get_at p b"
proof (induction locs arbitrary: b)
  case Nil
  then show ?case by simp
next
  case (Cons l0 rest)
  let ?b1 = "setter (property l0) (g l0) b"
  from Cons.prems have "p \<notin> property ` set rest"
    and "\<forall>l \<in> set rest. property l \<in> set (all_paths ?b1)"
    by (simp_all add: all_paths_setter)
  from Cons.IH [OF this] Cons.prems show ?case
    by (simp add: get_at_setter)
qed

lemma fold_setter_get_at:
  "distinct (map property locs) \<Longrightarrow> \<forall>l \<in> set locs. property l \<in> set (all_paths b) \<Longrightarrow>
     l \<in> set locs \<Longrightarrow>
     get_at (property l) (fold (\<lambda>location b. setter (property location) (g location) b) locs b)
       = g l"
proof (induction locs arbitrary: b)
  case Nil
  then show ?case by simp
next
  case (Cons l0 rest)
  let ?b1 = "setter (property l0) (g l0) b"
  from Cons.prems have paths: "\<forall>l \<in> set rest. property l \<in> set (all_paths ?b1)"
    and d: "distinct (map property rest)" and notin: "property l0 \<notin> property ` set rest"
    and p0: "property l0 \<in> set (all_paths b)"
    by (simp_all add: all_paths_setter)
  show ?case
  proof (cases "l \<in> set rest")
    case True
    from Cons.IH [OF d paths True] show ?thesis by simp
  next
    case False
    with Cons.prems have "l = l0" by simp
    with fold_setter_frame [OF notin paths, of g] p0 show ?thesis
      by (simp add: get_at_setter)
  qed
qed

lemma extract_definitions_cleaned:
  assumes keep: "\<And>t s. f (setPlainText t s) = f s"
    and "extractFootnoteDefinitionsFromRichText newRegExp rts markerPrefix cached
           = Some (Inr (cleaned, defs))"
  shows "\<exists>k. chars_with f cleaned = take k (chars_with f rts)"
proof -
  let ?fullText = "case cached of Some t \<Rightarrow> if t \<noteq> [] then t else joinPlainText rts
                   | None \<Rightarrow> joinPlainText rts"
  show ?thesis
  proof (cases "index_of ''\<newline>\<newline>[^'' 0 ?fullText")
    case None
    with assms(2) have "cleaned = rts"
      by (simp add: extractFootnoteDefinitionsFromRichText_def Let_def)
    then have "chars_with f cleaned = take (length (chars_with f rts)) (chars_with f rts)" by simp
    then show ?thesis ..
  next
    case (Some splitPoint)
    with assms(2) have "cleaned = fst (splitRichTextsAtCharPosition rts splitPoint)"
      by (auto simp add: extractFootnoteDefinitionsFromRichText_def Let_def split_beta
            split: option.splits sum.splits)
    then have "chars_with f cleaned = take splitPoint (chars_with f rts)"
      by (simp add: split_chars_take [OF keep])
    then show ?thesis ..
  qed
qed

lemma end_of_block_step:
  assumes "end_of_block_loop newRegExp markerPrefix markers (l0 # rest) (b, fns) = Some (b', res)"
  shows "(\<exists>e. extractFootnoteDefinitionsFromRichText newRegExp (richTexts l0) markerPrefix
                 (Some (joinPlainText (richTexts l0))) = Some (Inl e) \<and> b' = b)
       \<or> (\<exists>cleaned defs fns'.
             extractFootnoteDefinitionsFromRichText newRegExp (richTexts l0) markerPrefix
                 (Some (joinPlainText (richTexts l0))) = Some (Inr (cleaned, defs))
             \<and> fns' = fns @ map (definition_footnote markerPrefix l0)
                               (filter (\<lambda>d. \<exists>m \<in> set markers. Marker m = fst d) defs)
             \<and> end_of_block_loop newRegExp markerPrefix markers rest
                  (setter (property l0)
                     (splitRichTextWithMarkers (l0\<lparr>richTexts := cleaned\<rparr>) markers)
                     (setter (property l0) cleaned b), fns') = Some (b', res))"
  using assms
  by (auto simp add: Let_def split: option.splits sum.splits prod.splits)

lemma end_of_block_loop_frame:
  "end_of_block_loop newRegExp markerPrefix markers locs (b, fns) = Some (b', res) \<Longrightarrow>
     p \<notin> property ` set locs \<Longrightarrow> \<forall>l \<in> set locs. property l \<in> set (all_paths b) \<Longrightarrow>
     get_at p b' = get_at p b"
proof (induction locs arbitrary: b fns)
  case Nil
  then show ?case by simp
next
  case (Cons l0 rest)
  from end_of_block_step [OF Cons.prems(1)] show ?case
  proof (elim disjE exE conjE)
    fix e assume "b' = b"
    then show ?thesis by simp
  next
    fix cleaned defs fns'
    let ?b2 = "setter (property l0)
                 (splitRichTextWithMarkers (l0\<lparr>richTexts := cleaned\<rparr>) markers)
                 (setter (property l0) cleaned b)"
    assume loop: "end_of_block_loop newRegExp markerPrefix markers rest (?b2, fns') = Some (b', res)"
    from Cons.prems have "p \<notin> property ` set rest"
      and "\<forall>l \<in> set rest. property l \<in> set (all_paths ?b2)"
      by (simp_all add: all_paths_setter)
    from Cons.IH [OF loop this] Cons.prems show ?thesis
      by (simp add: get_at_setter all_paths_setter)
  qed
qed

lemma end_of_block_loop_chars:
  assumes keep: "\<And>t s. f (setPlainText t s) = f s"
  shows "end_of_block_loop newRegExp markerPrefix markers locs (b, fns) = Some (b', res) \<Longrightarrow>
     distinct (map property locs) \<Longrightarrow>
     \<forall>l \<in> set locs. property l \<in> set (all_paths b) \<and> get_at (property l) b = richTexts l \<Longrightarrow>
     l \<in> set locs \<Longrightarrow>
     \<forall>m \<in> set markers. BlockProperty (Location m) = property l \<longrightarrow>
        q < CharStart (Location m) \<or> CharStart (Location m) + length (FullMarker m) \<le> q \<Longrightarrow>
     q < length (joinPlainText (get_at (property l) b')) \<Longrightarrow>
     chars_with f (get_at (property l) b') ! q = chars_with f (richTexts l) ! q"
proof (induction locs arbitrary: b fns)
  case Nil
  then show ?case by simp
next
  case (Cons l0 rest)
  from end_of_block_step [OF Cons.prems(1)] show ?case
  proof (elim disjE exE conjE)
    fix e assume "b' = b"
    moreover from Cons.prems(3,4) have "get_at (property l) b = richTexts l" by blast
    ultimately show ?thesis by simp
  next
    fix cleaned defs fns'
    let ?split = "splitRichTextWithMarkers (l0\<lparr>richTexts := cleaned\<rparr>) markers"
    let ?b2 = "setter (property l0) ?split (setter (property l0) cleaned b)"
    assume ex: "extractFootnoteDefinitionsFromRichText newRegExp (richTexts l0) markerPrefix
                 (Some (joinPlainText (richTexts l0))) = Some (Inr (cleaned, defs))"
      and loop: "end_of_block_loop newRegExp markerPrefix markers rest (?b2, fns') = Some (b', res)"
    from Cons.prems(2) have d: "distinct (map property rest)"
      and notin: "property l0 \<notin> property ` set rest" by simp_all
    from Cons.prems(3) have p0: "property l0 \<in> set (all_paths b)" by simp
    have paths: "\<forall>l' \<in> set rest. property l' \<in> set (all_paths ?b2)"
      using Cons.prems(3) by (simp add: all_paths_setter)
    show ?thesis
    proof (cases "l \<in> set rest")
      case True
      have inv: "\<forall>l' \<in> set rest. property l' \<in> set (all_paths ?b2)
                   \<and> get_at (property l') ?b2 = richTexts l'"
      proof
        fix l' assume l': "l' \<in> set rest"
        with notin have "property l' \<noteq> property l0" by (metis imageI)
        with Cons.prems(3) l' p0 show "property l' \<in> set (all_paths ?b2)
                   \<and> get_at (property l') ?b2 = richTexts l'"
          by (simp add: get_at_setter all_paths_setter)
      qed
      from Cons.IH [OF loop d inv True Cons.prems(5,6)] show ?thesis .
    next
      case False
      with Cons.prems(4) have l: "l = l0" by simp
      from end_of_block_loop_frame [OF loop notin paths] p0
      have g: "get_at (property l0) b' = ?split"
        by (simp add: get_at_setter all_paths_setter)
      have j: "joinPlainText ?split = joinPlainText cleaned"
        by (simp add: splitRichTextWithMarkers_join)
      from Cons.prems(6) l g j have q: "q < length (joinPlainText cleaned)" by simp
      have "chars_with f ?split ! q = chars_with f (richTexts (l0\<lparr>richTexts := cleaned\<rparr>)) ! q"
        by (rule splitRichTextWithMarkers_chars [OF keep]) (use Cons.prems(5) l q in simp_all)
      moreover from extract_definitions_cleaned [OF keep ex] obtain k where
        "chars_with f cleaned = take k (chars_with f (richTexts l0))" ..
      with q have "chars_with f cleaned ! q = chars_with f (richTexts l0) ! q"
        by (metis length_chars_with length_take min_less_iff_conj nth_take)
      ultimately show ?thesis using l g by simp
    qed
  qed
qed


lemma distinct_location_properties: "distinct (map property (getAllRichTextLocations b))"
  by (simp add: property_locations distinct_all_paths)

lemma fold_split_chars:
  assumes keep: "\<And>t s. f (setPlainText t s) = f s"
    and l: "l \<in> set (getAllRichTextLocations block)"
    and paths: "all_paths b1 = all_paths block"
    and out: "\<forall>m \<in> set markers. BlockProperty (Location m) = property l \<longrightarrow>
        q < CharStart (Location m) \<or> CharStart (Location m) + length (FullMarker m) \<le> q"
    and q: "q < length (joinPlainText
                 (get_at (property l)
                    (fold (\<lambda>location b. setter (property location)
                                          (splitRichTextWithMarkers location markers) b)
                       (getAllRichTextLocations block) b1)))"
  shows "chars_with f
           (get_at (property l)
              (fold (\<lambda>location b. setter (property location)
                                    (splitRichTextWithMarkers location markers) b)
                 (getAllRichTextLocations block) b1)) ! q
         = chars_with f (richTexts l) ! q"
proof -
  have "\<forall>l' \<in> set (getAllRichTextLocations block). property l' \<in> set (all_paths b1)"
    using locations_props paths by simp
  from fold_setter_get_at [OF distinct_location_properties this l,
      of "\<lambda>location. splitRichTextWithMarkers location markers"]
  have g: "get_at (property l)
              (fold (\<lambda>location b. setter (property location)
                                    (splitRichTextWithMarkers location markers) b)
                 (getAllRichTextLocations block) b1) = splitRichTextWithMarkers l markers" .
  from q have "q < length (joinPlainText (richTexts l))"
    unfolding g by (simp add: splitRichTextWithMarkers_join)
  from splitRichTextWithMarkers_chars [OF keep out this] show ?thesis
    unfolding g .
qed

lemma footnotes_block_chars:
  assumes keep: "\<And>t s. f (setPlainText t s) = f s"
    and result: "extractFootnotesFromBlock newRegExp block config notionClient
                   = Some (block', outcome, requests)"
    and l: "l \<in> set (getAllRichTextLocations block)"
    and out: "\<And>markers m.
        findAllFootnoteMarkers newRegExp (getAllRichTextLocations block) (marker_prefix config)
          = Some (Inr markers) \<Longrightarrow>
        m \<in> set markers \<Longrightarrow> BlockProperty (Location m) = property l \<Longrightarrow>
        q < CharStart (Location m) \<or> CharStart (Location m) + length (FullMarker m) \<le> q"
    and q: "q < length (joinPlainText (get_at (property l) block'))"
  shows "chars_with f (get_at (property l) block') ! q = chars_with f (richTexts l) ! q"
proof -
  let ?find = "findAllFootnoteMarkers newRegExp (getAllRichTextLocations block) (marker_prefix config)"
  note same = locations_props [OF l, THEN conjunct2, THEN conjunct1]
  have unchanged: ?thesis if "block' = block"
    using that same by simp
  show ?thesis
  proof (cases "getActiveSource config")
    case None
    with result have "block' = block" by (simp add: extractFootnotesFromBlock_def)
    then show ?thesis by (rule unchanged)
  next
    case (Some src)
    show ?thesis
    proof (cases ?find)
      case None
      with result Some show ?thesis
        by (cases src)
           (simp_all add: extractFootnotesFromBlock_def extractEndOfBlockFootnotes_def
              extractStartOfChildBlocksFootnotes_def extractBlockCommentsFootnotes_def)
    next
      case found: (Some found)
      show ?thesis
      proof (cases found)
        case (Inl e)
        with result Some found have "block' = block"
          by (cases src)
             (simp_all add: extractFootnotesFromBlock_def extractEndOfBlockFootnotes_def
                extractStartOfChildBlocksFootnotes_def extractBlockCommentsFootnotes_def)
        then show ?thesis by (rule unchanged)
      next
        case (Inr markers)
        with found have f: "?find = Some (Inr markers)" by simp
        note outside = out [OF f]
        show ?thesis
        proof (cases "markers = []")
          case True
          with result Some f have "block' = block"
            by (cases src)
               (simp_all add: extractFootnotesFromBlock_def extractEndOfBlockFootnotes_def
                  extractStartOfChildBlocksFootnotes_def extractBlockCommentsFootnotes_def)
          then show ?thesis by (rule unchanged)
        next
          case False
          show ?thesis
          proof (cases src)
            case end_of_block
            with result Some f False obtain r where
              loop: "end_of_block_loop newRegExp (marker_prefix config) markers
                       (getAllRichTextLocations block) (block, []) = Some (block', r)"
              by (auto simp add: extractFootnotesFromBlock_def extractEndOfBlockFootnotes_def
                    Let_def split: option.splits sum.splits prod.splits)
            show ?thesis
              by (rule end_of_block_loop_chars [OF keep loop distinct_location_properties _ l _ q])
                 (use locations_props outside in auto)
          next
            case start_of_child_blocks
            with result Some f False obtain ch where
              "block' = fold (\<lambda>location b. setter (property location)
                                             (splitRichTextWithMarkers location markers) b)
                          (getAllRichTextLocations block) (setChildrenInBlock block ch)"
              by (auto simp add: extractFootnotesFromBlock_def
                    extractStartOfChildBlocksFootnotes_def Let_def
                    split: option.splits sum.splits prod.splits)
            with q show ?thesis
              by (simp add: fold_split_chars [OF keep l _ _] outside)
          next
            case block_comments
            with result Some f False consider "block' = block"
              | "block' = fold (\<lambda>location b. setter (property location)
                                             (splitRichTextWithMarkers location markers) b)
                          (getAllRichTextLocations block) block"
              by (auto simp add: extractFootnotesFromBlock_def
                    extractBlockCommentsFootnotes_def Let_def split_beta
                    split: option.splits sum.splits)
            then show ?thesis
            proof cases
              case 1
              then show ?thesis by (rule unchanged)
            next
              case 2
              with q show ?thesis
                by (simp add: fold_split_chars [OF keep l _ _] outside)
            qed
          qed
        qed
      qed
    qed
  qed
qed


text \<open>The footnotes of the end-of-block source have the keys of returned markers.\<close>

lemma end_of_block_loop_keys:
  "end_of_block_loop newRegExp markerPrefix markers locs (b, fns) = Some (b', Inr fns'') \<Longrightarrow>
     \<forall>f \<in> set fns. \<exists>m \<in> set markers. Marker m = FnMarker f \<Longrightarrow>
     \<forall>f \<in> set fns''. \<exists>m \<in> set markers. Marker m = FnMarker f"
proof (induction locs arbitrary: b fns)
  case Nil
  then show ?case by simp
next
  case (Cons l0 rest)
  from end_of_block_step [OF Cons.prems(1)] show ?case
  proof (elim disjE exE conjE)
    fix e assume "extractFootnoteDefinitionsFromRichText newRegExp (richTexts l0) markerPrefix
                 (Some (joinPlainText (richTexts l0))) = Some (Inl e)"
    with Cons.prems(1) show ?thesis by (simp add: Let_def)
  next
    fix cleaned defs fns'
    assume fns': "fns' = fns @ map (definition_footnote markerPrefix l0)
                               (filter (\<lambda>d. \<exists>m \<in> set markers. Marker m = fst d) defs)"
      and loop: "end_of_block_loop newRegExp markerPrefix markers rest
                  (setter (property l0)
                     (splitRichTextWithMarkers (l0\<lparr>richTexts := cleaned\<rparr>) markers)
                     (setter (property l0) cleaned b), fns') = Some (b', Inr fns'')"
    from Cons.prems(2) fns' have "\<forall>f \<in> set fns'. \<exists>m \<in> set markers. Marker m = FnMarker f"
      by (auto simp: definition_footnote_def)
    from Cons.IH [OF loop this] show ?thesis .
  qed
qed

lemma end_of_block_keys:
  assumes "extractEndOfBlockFootnotes newRegExp block config = Some (block', Inr result)"
    and "findAllFootnoteMarkers newRegExp (getAllRichTextLocations block) (marker_prefix config)
           = Some (Inr markers)"
  shows "\<forall>f \<in> set (footnotes result). \<exists>m \<in> set markers. Marker m = FnMarker f"
proof (cases "markers = []")
  case True
  with assms show ?thesis
    by (auto simp add: extractEndOfBlockFootnotes_def unprocessed_def)
next
  case False
  with assms obtain fns where
    loop: "end_of_block_loop newRegExp (marker_prefix config) markers
             (getAllRichTextLocations block) (block, []) = Some (block', Inr fns)"
    and r: "footnotes result = fns"
    by (auto simp add: extractEndOfBlockFootnotes_def Let_def
          split: option.splits sum.splits prod.splits)
  from end_of_block_loop_keys [OF loop] r show ?thesis by simp
qed

text \<open>A match that starts in code is no returned marker, and no returned marker overlaps it.\<close>

lemma found_markers:
  assumes "findAllFootnoteMarkers newRegExp locs markerPrefix = Some (Inr markers)"
    and "newRegExp (inline_marker_source markerPrefix) ''g'' = Inr pattern"
  shows "markers_loop pattern locs = Some markers"
  using assms by (simp add: findAllFootnoteMarkers_def split: option.splits)

lemma code_match_not_returned:
  assumes loop: "markers_loop pattern locs = Some markers"
    and d: "distinct (map property locs)" and l: "l \<in> set locs"
    and ms: "exec_loop pattern (joinPlainText (richTexts l)) 0 = Some ms"
    and c: "code_at (richTexts l) (match_index r)"
    and m: "m \<in> set markers" "BlockProperty (Location m) = property l"
  shows "CharStart (Location m) \<noteq> match_index r"
proof -
  from markers_of_location [OF loop d l ms m] obtain r' where
    "r' \<in> set ms" and mr: "m \<in> set (marker_of_match l r')" by blast
  from marker_of_match_fields(2,5) [OF mr] c show ?thesis by auto
qed

lemma code_match_apart:
  assumes adv: "exec_advances pattern"
    and loop: "markers_loop pattern locs = Some markers"
    and d: "distinct (map property locs)" and l: "l \<in> set locs"
    and ms: "exec_loop pattern (joinPlainText (richTexts l)) 0 = Some ms"
    and r: "r \<in> set ms" and c: "code_at (richTexts l) (match_index r)"
    and q: "match_index r \<le> q" "q < match_index r + length (match_0 r)"
    and m: "m \<in> set markers" "BlockProperty (Location m) = property l"
  shows "q < CharStart (Location m) \<or> CharStart (Location m) + length (FullMarker m) \<le> q"
proof -
  from markers_of_location [OF loop d l ms m] obtain r' where
    r': "r' \<in> set ms" and mr: "m \<in> set (marker_of_match l r')" by blast
  note f = marker_of_match_fields [OF mr]
  from f(5) c have "match_index r \<noteq> match_index r'" by auto
  from exec_loop_apart [OF adv ms r r' this] q f(2,3) show ?thesis by auto
qed

lemma global_exec_advances: "exec_advances (global_exec pattern)"
  unfolding exec_advances_def
proof (intro allI impI)
  fix s lastIndex m
  assume a: "global_exec pattern s lastIndex = Some m"
  then obtain m0 where m0: "fst (exec_from pattern lastIndex s) = Some m0"
    and m: "match_index m = index m0"
    by (auto simp: global_exec_def split: option.splits)
  let ?ms = "exec_all pattern (if lastIndex = 0 then None else Some (s ! (lastIndex - 1)))
               lastIndex 0 (drop lastIndex s)"
  from m0 have "m0 \<in> set ?ms"
    by (auto simp: exec_from_def split: if_splits list.splits)
  from exec_all_sound [OF this] m show "lastIndex \<le> match_index m" by simp
qed


text \<open>
  Claim C5. A footnote-marker or citation-token match whose first character lies in a run
  whose Code annotation is true is discarded.

  For the footnote pattern: let \<open>r\<close> be a match that the loop of the marker finder meets in
  the text of a location of a block, for a pattern that the host has built from the source
  and that answers with matches at or after \<^verbatim>\<open>lastIndex\<close>, and let \<open>r\<close> start in code. Then
  no marker that the finder returns is at the position of \<open>r\<close> in that location; in the
  block that footnote extraction leaves, in any mode and whether it returns or throws,
  every character of \<open>r\<close> that is still in the location is the same character in a span of
  the same format (annotation, marker flags, references, links) as before, so \<open>r\<close> has not
  been made a marker span; and the footnotes of the end-of-block source have keys of
  returned markers only.

  For the citation patterns: let \<open>r\<close> be a match of the configured pattern in the text of
  a location of a block, and let \<open>r\<close> start in code. Then no match that the extraction
  keeps for the location starts where \<open>r\<close> starts; in the location after the extraction every
  character of \<open>r\<close> is the same character in a span of the same format as before, so \<open>r\<close> has
  not been replaced; and the keys of the citation records are, location by location, the
  keys of the matches that start outside code and whose key is in the bibliography, from the
  last to the first, so \<open>r\<close> has not been recorded.
\<close>

theorem code_runs_are_skipped:
  "(\<forall>newRegExp notionClient block config pattern i ms r.
      i < length (getAllRichTextLocations block)
      \<and> newRegExp (inline_marker_source (marker_prefix config)) ''g'' = Inr pattern
      \<and> exec_advances pattern
      \<and> exec_loop pattern (joinPlainText (richTexts (getAllRichTextLocations block ! i))) 0 = Some ms
      \<and> r \<in> set ms
      \<and> code_at (richTexts (getAllRichTextLocations block ! i)) (match_index r)
      \<longrightarrow>
        (\<forall>markers.
           findAllFootnoteMarkers newRegExp (getAllRichTextLocations block) (marker_prefix config)
             = Some (Inr markers)
           \<longrightarrow> \<not> (\<exists>m \<in> set markers.
                     BlockProperty (Location m) = property (getAllRichTextLocations block ! i)
                     \<and> CharStart (Location m) = match_index r))
        \<and> (\<forall>block' outcome requests q.
             extractFootnotesFromBlock newRegExp block config notionClient
               = Some (block', outcome, requests)
             \<and> match_index r \<le> q \<and> q < match_index r + length (match_0 r)
             \<and> q < length (joinPlainText
                             (get_at (property (getAllRichTextLocations block ! i)) block'))
             \<longrightarrow> chars_with span_format
                   (get_at (property (getAllRichTextLocations block ! i)) block') ! q
                 = chars_with span_format (richTexts (getAllRichTextLocations block ! i)) ! q)
        \<and> (\<forall>block' result markers.
             extractEndOfBlockFootnotes newRegExp block config = Some (block', Inr result)
             \<and> findAllFootnoteMarkers newRegExp (getAllRichTextLocations block)
                 (marker_prefix config) = Some (Inr markers)
             \<longrightarrow> (\<forall>f \<in> set (footnotes result). \<exists>m \<in> set markers. Marker m = FnMarker f)))
   \<and> (\<forall>block config bibEntries pattern i r.
        i < length (getAllRichTextLocations block)
        \<and> citation_regex (in_text_citation_format config) = Some pattern
        \<and> r \<in> set (exec_all pattern None 0 0
                      (joinPlainText (richTexts (getAllRichTextLocations block ! i))))
        \<and> code_at (richTexts (getAllRichTextLocations block ! i)) (index r)
        \<longrightarrow>
          \<not> (\<exists>m \<in> set (find_citation_matches pattern
                           (richTexts (getAllRichTextLocations block ! i))).
                m_start m = index r)
          \<and> (\<forall>q. index r \<le> q \<and> q < index r + length (whole r)
                \<longrightarrow> chars_with span_format
                      (richTexts (getAllRichTextLocations
                         (fst (extractCitationsFromBlock block config bibEntries)) ! i)) ! q
                    = chars_with span_format (richTexts (getAllRichTextLocations block ! i)) ! q)
          \<and> map Key (citations (snd (extractCitationsFromBlock block config bibEntries))) =
              concat (map (\<lambda>l. map group1
                                  (filter (\<lambda>r. \<not> code_at (richTexts l) (index r)
                                               \<and> bibEntries (group1 r) \<noteq> None)
                                     (rev (exec_all pattern None 0 0
                                             (joinPlainText (richTexts l))))))
                        (getAllRichTextLocations block)))"
proof (intro conjI allI impI ballI; (elim conjE)?)
  fix newRegExp :: RegExp_constructor and notionClient :: "comments_client option"
    and block and config :: FootnotesConfig and pattern i ms r markers
  let ?locs = "getAllRichTextLocations block"
  let ?l = "?locs ! i"
  assume i: "i < length ?locs"
    and pat: "newRegExp (inline_marker_source (marker_prefix config)) ''g'' = Inr pattern"
    and ms: "exec_loop pattern (joinPlainText (richTexts ?l)) 0 = Some ms"
    and c: "code_at (richTexts ?l) (match_index r)"
    and f: "findAllFootnoteMarkers newRegExp ?locs (marker_prefix config) = Some (Inr markers)"
  from i have l: "?l \<in> set ?locs" by simp
  from code_match_not_returned [OF found_markers [OF f pat] distinct_location_properties l ms c]
  show "\<not> (\<exists>m \<in> set markers. BlockProperty (Location m) = property ?l
                              \<and> CharStart (Location m) = match_index r)"
    by blast
next
  fix newRegExp :: RegExp_constructor and notionClient :: "comments_client option"
    and block config pattern i ms r block' outcome requests q
  let ?locs = "getAllRichTextLocations block"
  let ?l = "?locs ! i"
  assume i: "i < length ?locs"
    and pat: "newRegExp (inline_marker_source (marker_prefix config)) ''g'' = Inr pattern"
    and adv: "exec_advances pattern"
    and ms: "exec_loop pattern (joinPlainText (richTexts ?l)) 0 = Some ms"
    and r: "r \<in> set ms"
    and c: "code_at (richTexts ?l) (match_index r)"
    and result: "extractFootnotesFromBlock newRegExp block config notionClient
                   = Some (block', outcome, requests)"
    and q: "match_index r \<le> q" "q < match_index r + length (match_0 r)"
      "q < length (joinPlainText (get_at (property ?l) block'))"
  from i have l: "?l \<in> set ?locs" by simp
  show "chars_with span_format (get_at (property ?l) block') ! q
          = chars_with span_format (richTexts ?l) ! q"
  proof (rule footnotes_block_chars [OF _ result l _ q(3)])
    fix markers m
    assume "findAllFootnoteMarkers newRegExp ?locs (marker_prefix config) = Some (Inr markers)"
      and m: "m \<in> set markers" "BlockProperty (Location m) = property ?l"
    from found_markers [OF this(1) pat] have "markers_loop pattern ?locs = Some markers" .
    from code_match_apart [OF adv this distinct_location_properties l ms r c q(1,2) m]
    show "q < CharStart (Location m) \<or> CharStart (Location m) + length (FullMarker m) \<le> q" .
  qed simp
next
  fix newRegExp :: RegExp_constructor and block and config :: FootnotesConfig
    and block' result markers f
  assume "extractEndOfBlockFootnotes newRegExp block config = Some (block', Inr result)"
    and "findAllFootnoteMarkers newRegExp (getAllRichTextLocations block) (marker_prefix config)
           = Some (Inr markers)"
    and "f \<in> set (footnotes result)"
  with end_of_block_keys show "\<exists>m \<in> set markers. Marker m = FnMarker f" by blast
next
  fix block and config :: CitationsConfig and pattern :: matcher and i r
  let ?rts = "richTexts (getAllRichTextLocations block ! i)"
  assume c: "code_at ?rts (index r)"
  show "\<not> (\<exists>m \<in> set (find_citation_matches pattern ?rts). m_start m = index r)"
    unfolding find_citation_matches_code_at using c
    by (auto simp: to_citation_match_def)
next
  fix block and config :: CitationsConfig and bibEntries and pattern :: matcher and i r q
  let ?rts = "richTexts (getAllRichTextLocations block ! i)"
  assume i: "i < length (getAllRichTextLocations block)"
    and fmt: "citation_regex (in_text_citation_format config) = Some pattern"
    and r: "r \<in> set (exec_all pattern None 0 0 (joinPlainText ?rts))"
    and c: "code_at ?rts (index r)"
    and q: "index r \<le> q" "q < index r + length (whole r)"
  let ?style = "if bibliography_format_simplified_ieee config then simplified_ieee else apa"
  have "richTexts (getAllRichTextLocations
          (fst (extractCitationsFromBlock block config bibEntries)) ! i)
        = process_location pattern bibEntries ?style ?rts"
    using i by (simp add: extract_citations_locations fmt)
  with code_token_untouched [OF _ r c q, of span_format bibEntries ?style]
  show "chars_with span_format
          (richTexts (getAllRichTextLocations
             (fst (extractCitationsFromBlock block config bibEntries)) ! i)) ! q
        = chars_with span_format ?rts ! q"
    by simp
next
  fix block and config :: CitationsConfig and bibEntries and pattern :: matcher
  assume "citation_regex (in_text_citation_format config) = Some pattern"
  from citation_keys_outside_code [OF this]
  show "map Key (citations (snd (extractCitationsFromBlock block config bibEntries))) =
              concat (map (\<lambda>l. map group1
                                  (filter (\<lambda>r. \<not> code_at (richTexts l) (index r)
                                               \<and> bibEntries (group1 r) \<noteq> None)
                                     (rev (exec_all pattern None 0 0
                                             (joinPlainText (richTexts l))))))
                        (getAllRichTextLocations block))" .
qed



theorem code_runs_are_skipped_witness:
  "ft_RegExp (inline_marker_source (marker_prefix (ft_config end_of_block))) ''g''
     = Inr (global_exec (reference_pattern ''[^ft_''))
   \<and> exec_advances (global_exec (reference_pattern ''[^ft_''))
   \<and> exec_loop (global_exec (reference_pattern ''[^ft_''))
        (joinPlainText (richTexts (getAllRichTextLocations mixed_paragraph ! 0))) 0
      = Some [\<lparr>match_index = 0, match_0 = ''[^ft_x]'', match_1 = Some ''x''\<rparr>,
              \<lparr>match_index = 17, match_0 = ''[^ft_a]'', match_1 = Some ''a''\<rparr>]
   \<and> code_at (richTexts (getAllRichTextLocations mixed_paragraph ! 0)) 0
   \<and> findAllFootnoteMarkers ft_RegExp (getAllRichTextLocations mixed_paragraph)
        (marker_prefix (ft_config end_of_block)) = Some (Inr [marker_a])
   \<and> extractFootnotesFromBlock ft_RegExp mixed_paragraph (ft_config end_of_block) None
      = Some (mixed_paragraph_marked,
              Inr \<lparr>footnotes = [], hasProcessedRichTexts = True, hasProcessedChildren = False\<rparr>,
              [])
   \<and> chars_with span_format (get_at (RichTextsOf Paragraph) mixed_paragraph_marked) ! 3
      = chars_with span_format (richTexts (getAllRichTextLocations mixed_paragraph ! 0)) ! 3
   \<and> exec_all (citation_pattern ''[@'' (CHR '']'')) None 0 0
        (joinPlainText (richTexts (getAllRichTextLocations mixed_paragraph ! 0)))
      = [\<lparr>index = 8, whole = ''[@k1]'', group1 = ''k1''\<rparr>,
         \<lparr>index = 25, whole = ''[@k2]'', group1 = ''k2''\<rparr>]
   \<and> code_at (richTexts (getAllRichTextLocations mixed_paragraph ! 0)) 8
   \<and> k1_k2 ''k1'' = Some smith_entry
   \<and> chars_with span_format
        (richTexts (getAllRichTextLocations
           (fst (extractCitationsFromBlock mixed_paragraph pandoc_config k1_k2)) ! 0)) ! 10
      = chars_with span_format (richTexts (getAllRichTextLocations mixed_paragraph ! 0)) ! 10
   \<and> map Key (citations (snd (extractCitationsFromBlock mixed_paragraph pandoc_config k1_k2)))
      = [''k2'']"
proof -
  let ?p = "global_exec (reference_pattern ''[^ft_'')"
  let ?c = "citation_pattern ''[@'' (CHR '']'')"
  let ?rts = "richTexts (getAllRichTextLocations mixed_paragraph ! 0)"
  let ?x = "\<lparr>match_index = 0, match_0 = ''[^ft_x]'', match_1 = Some ''x''\<rparr>"
  let ?a = "\<lparr>match_index = 17, match_0 = ''[^ft_a]'', match_1 = Some ''a''\<rparr>"
  let ?k1 = "\<lparr>index = 8, whole = ''[@k1]'', group1 = ''k1''\<rparr>"
  let ?k2 = "\<lparr>index = 25, whole = ''[@k2]'', group1 = ''k2''\<rparr>"
  let ?none = "None :: comments_client option"
  note main = code_runs_are_skipped
  note footnote_part = main [THEN conjunct1, rule_format]
  note citation_part = main [THEN conjunct2, rule_format]
  have i: "0 < length (getAllRichTextLocations mixed_paragraph)" by code_simp
  have pat: "ft_RegExp (inline_marker_source (marker_prefix (ft_config end_of_block))) ''g''
               = Inr ?p"
    by (simp add: ft_RegExp_def ft_config_def)
  have adv: "exec_advances ?p" by (rule global_exec_advances)
  have ms: "exec_loop ?p (joinPlainText ?rts) 0 = Some [?x, ?a]" by code_simp
  have c0: "code_at ?rts 0" by code_simp
  have found: "findAllFootnoteMarkers ft_RegExp (getAllRichTextLocations mixed_paragraph)
        (marker_prefix (ft_config end_of_block)) = Some (Inr [marker_a])"
    by code_simp
  have extracted: "extractFootnotesFromBlock ft_RegExp mixed_paragraph (ft_config end_of_block) ?none
      = Some (mixed_paragraph_marked,
              Inr \<lparr>footnotes = [], hasProcessedRichTexts = True, hasProcessedChildren = False\<rparr>,
              [])"
    by code_simp
  have path: "property (getAllRichTextLocations mixed_paragraph ! 0) = RichTextsOf Paragraph"
    by code_simp
  have len: "3 < length (joinPlainText (get_at (RichTextsOf Paragraph) mixed_paragraph_marked))"
    by code_simp
  have "i < length (getAllRichTextLocations mixed_paragraph)
      \<and> ft_RegExp (inline_marker_source (marker_prefix (ft_config end_of_block))) ''g'' = Inr ?p
      \<and> exec_advances ?p
      \<and> exec_loop ?p (joinPlainText (richTexts (getAllRichTextLocations mixed_paragraph ! i))) 0
          = Some [?x, ?a]
      \<and> ?x \<in> set [?x, ?a]
      \<and> code_at (richTexts (getAllRichTextLocations mixed_paragraph ! i)) (match_index ?x)"
    if "i = 0" for i
    using that i pat adv ms c0 by simp
  from footnote_part [where newRegExp = ft_RegExp and block = mixed_paragraph
      and config = "ft_config end_of_block" and pattern = ?p and i = 0 and ms = "[?x, ?a]"
      and r = ?x and notionClient = ?none, OF this [OF refl]]
  have "\<forall>block' outcome requests q.
          extractFootnotesFromBlock ft_RegExp mixed_paragraph (ft_config end_of_block) ?none
            = Some (block', outcome, requests)
          \<and> match_index ?x \<le> q \<and> q < match_index ?x + length (match_0 ?x)
          \<and> q < length (joinPlainText
                          (get_at (property (getAllRichTextLocations mixed_paragraph ! 0)) block'))
          \<longrightarrow> chars_with span_format
                (get_at (property (getAllRichTextLocations mixed_paragraph ! 0)) block') ! q
              = chars_with span_format ?rts ! q"
    by blast
  with extracted len have f3:
    "chars_with span_format (get_at (RichTextsOf Paragraph) mixed_paragraph_marked) ! 3
      = chars_with span_format ?rts ! 3"
    unfolding path by simp
  have fmt: "citation_regex (in_text_citation_format pandoc_config) = Some ?c"
    by (simp add: citation_regex_def pandoc_config_def)
  have cm: "exec_all ?c None 0 0 (joinPlainText ?rts) = [?k1, ?k2]" by code_simp
  have c8: "code_at ?rts 8" by code_simp
  have k1: "k1_k2 ''k1'' = Some smith_entry" by (simp add: k1_k2_def)
  have "i < length (getAllRichTextLocations mixed_paragraph)
      \<and> citation_regex (in_text_citation_format pandoc_config) = Some ?c
      \<and> ?k1 \<in> set (exec_all ?c None 0 0
                      (joinPlainText (richTexts (getAllRichTextLocations mixed_paragraph ! i))))
      \<and> code_at (richTexts (getAllRichTextLocations mixed_paragraph ! i)) (index ?k1)"
    if "i = 0" for i
    using that i fmt cm c8 by simp
  note cp = citation_part [where block = mixed_paragraph and config = pandoc_config
      and pattern = ?c and i = 0 and r = ?k1 and bibEntries = k1_k2, OF this [OF refl]]
  from cp have c10: "chars_with span_format
        (richTexts (getAllRichTextLocations
           (fst (extractCitationsFromBlock mixed_paragraph pandoc_config k1_k2)) ! 0)) ! 10
      = chars_with span_format ?rts ! 10"
    by simp
  have "concat (map (\<lambda>l. map group1
                            (filter (\<lambda>r. \<not> code_at (richTexts l) (index r)
                                         \<and> k1_k2 (group1 r) \<noteq> None)
                               (rev (exec_all ?c None 0 0 (joinPlainText (richTexts l))))))
                  (getAllRichTextLocations mixed_paragraph)) = [''k2'']"
    by code_simp
  with cp have keys:
    "map Key (citations (snd (extractCitationsFromBlock mixed_paragraph pandoc_config k1_k2)))
      = [''k2'']"
    by simp
  from pat adv ms c0 found extracted f3 cm c8 k1 c10 keys show ?thesis
    by (intro conjI)
qed

section \<open>Properties of footnote extraction\<close>

text \<open>
  Claim C6. For a block in which the marker finder finds no inline footnote marker outside
  code, footnote extraction returns the block as it was, with no footnote and both
  flags false, in each of the three modes; in the block-comments mode no request is made
  to the comments provider.
\<close>

theorem no_marker_block_unmodified:
  assumes "findAllFootnoteMarkers newRegExp (getAllRichTextLocations block) (marker_prefix config)
             = Some (Inr [])"
  shows "extractFootnotesFromBlock newRegExp block config notionClient =
           Some (block,
                 Inr \<lparr>footnotes = [], hasProcessedRichTexts = False, hasProcessedChildren = False\<rparr>,
                 [])"
proof (cases "getActiveSource config")
  case None
  then show ?thesis
    by (simp add: extractFootnotesFromBlock_def unprocessed_def)
next
  case (Some src)
  with assms show ?thesis
    by (cases src)
       (simp_all add: extractFootnotesFromBlock_def extractEndOfBlockFootnotes_def
          extractStartOfChildBlocksFootnotes_def extractBlockCommentsFootnotes_def
          unprocessed_def)
qed

theorem no_marker_block_unmodified_witness:
  "findAllFootnoteMarkers ft_RegExp (getAllRichTextLocations code_only_paragraph)
       (marker_prefix (ft_config block_comments)) = Some (Inr [])
   \<and> extractFootnotesFromBlock ft_RegExp code_only_paragraph (ft_config block_comments)
         (Some answering_client) =
       Some (code_only_paragraph,
             Inr \<lparr>footnotes = [], hasProcessedRichTexts = False, hasProcessedChildren = False\<rparr>,
             [])"
proof -
  have h: "findAllFootnoteMarkers ft_RegExp (getAllRichTextLocations code_only_paragraph)
       (marker_prefix (ft_config block_comments)) = Some (Inr [])"
    by code_simp
  from h no_marker_block_unmodified [OF h, of "Some answering_client"] show ?thesis
    by (rule conjI)
qed

section \<open>The text of an extracted range\<close>

lemma substring_in_range:
  assumes "a \<le> b" and "b \<le> length p"
  shows "substring p a b = take (b - a) (drop a p)"
proof -
  from assms have "min a (length p) = a" "min b (length p) = b" "min a b = a" "max a b = b"
    by simp_all
  then show ?thesis by (simp add: substring_def Let_def)
qed

lemma extract_loop_join:
  assumes "s \<le> e"
  shows "joinPlainText (extract_loop s e cur res rts) =
           joinPlainText res @ drop (s - cur) (take (e - cur) (joinPlainText rts))"
proof (induction rts arbitrary: cur res)
  case Nil
  then show ?case by simp
next
  case (Cons x xs)
  let ?len = "length (PlainText x)"
  let ?slice = "substring (PlainText x) (max 0 (s - cur)) (min ?len (e - cur))"
  let ?here = "drop (s - cur) (take (e - cur) (PlainText x))"
  let ?res' = "if cur + ?len > s \<and> cur < e \<and> length ?slice > 0
               then res @ [setPlainText ?slice (cloneRichText x)] else res"
  have step: "extract_loop s e cur res (x # xs) = extract_loop s e (cur + ?len) ?res' xs"
    by (simp add: Let_def del: substring_0)
  have tail: "drop (s - cur) (take (e - cur) (PlainText x @ joinPlainText xs)) =
        ?here @ drop (s - (cur + ?len)) (take (e - (cur + ?len)) (joinPlainText xs))"
  proof (cases "e - cur \<ge> ?len")
    case True
    then show ?thesis by (simp add: min_def)
  next
    case False
    then have "e - (cur + ?len) = 0" by simp
    with False show ?thesis by simp
  qed
  have here: "joinPlainText ?res' = joinPlainText res @ ?here"
  proof (cases "cur + ?len > s \<and> cur < e")
    case True
    with assms have le: "s - cur \<le> min ?len (e - cur)" by auto
    then have "?slice = take (min ?len (e - cur) - (s - cur)) (drop (s - cur) (PlainText x))"
      by (simp add: substring_in_range del: substring_0)
    also have "\<dots> = drop (s - cur) (take (min ?len (e - cur)) (PlainText x))"
      by (simp add: drop_take)
    also have "take (min ?len (e - cur)) (PlainText x) = take (e - cur) (PlainText x)"
      by (simp add: min_def)
    finally have sl: "?slice = ?here" .
    show ?thesis
    proof (cases "length ?slice > 0")
      case nonempty: True
      with True have "?res' = res @ [setPlainText ?slice (cloneRichText x)]" by simp
      then have "joinPlainText ?res' = joinPlainText res @ ?slice"
        by (simp del: substring_0)
      then show ?thesis by (simp only: sl)
    next
      case False
      then have "?res' = res" and "?slice = []" by simp_all
      then show ?thesis using sl by simp
    qed
  next
    case False
    then have "?here = []" by auto
    moreover have "?res' = res" by (rule if_not_P) (use False in blast)
    ultimately show ?thesis by simp
  qed
  have "joinPlainText (extract_loop s e cur res (x # xs)) =
          joinPlainText ?res' @ drop (s - (cur + ?len)) (take (e - (cur + ?len)) (joinPlainText xs))"
    unfolding step by (rule Cons.IH)
  also have "\<dots> = joinPlainText res @ ?here
      @ drop (s - (cur + ?len)) (take (e - (cur + ?len)) (joinPlainText xs))"
    by (simp only: here append_assoc)
  also have "\<dots> = joinPlainText res @ drop (s - cur) (take (e - cur) (joinPlainText (x # xs)))"
    by (simp only: tail joinPlainText_simps)
  finally show ?case .
qed

lemma extract_loop_nonempty_spans:
  "\<forall>x \<in> set res. PlainText x \<noteq> [] \<Longrightarrow>
   \<forall>x \<in> set (extract_loop s e cur res rts). PlainText x \<noteq> []"
proof (induction rts arbitrary: cur res)
  case Nil
  then show ?case by simp
next
  case (Cons x xs)
  show ?case
    by (simp add: Let_def del: substring_0) (intro conjI impI Cons.IH; use Cons.prems in auto)
qed

lemma dropWhile_hd: "xs \<noteq> [] \<Longrightarrow> \<not> P (hd xs) \<Longrightarrow> dropWhile P xs = xs"
  by (cases xs) simp_all

lemma trimStart_id: "t \<noteq> [] \<Longrightarrow> \<not> white_space (hd t) \<Longrightarrow> trimStart t = t"
  by (simp add: trimStart_def dropWhile_hd)

lemma trimEnd_id: "t \<noteq> [] \<Longrightarrow> \<not> white_space (last t) \<Longrightarrow> trimEnd t = t"
  by (simp add: trimEnd_def dropWhile_hd hd_rev)

lemma join_hd:
  "res \<noteq> [] \<Longrightarrow> \<forall>x \<in> set res. PlainText x \<noteq> [] \<Longrightarrow>
     hd (PlainText (hd res)) = hd (joinPlainText res)"
  by (cases res) simp_all

lemma join_last:
  "res \<noteq> [] \<Longrightarrow> \<forall>x \<in> set res. PlainText x \<noteq> [] \<Longrightarrow>
     last (PlainText (last res)) = last (joinPlainText res)"
proof (induction res rule: rev_induct)
  case Nil
  then show ?case by simp
next
  case (snoc x xs)
  then show ?case by simp
qed

lemma trim_ends_join:
  assumes ne: "\<forall>x \<in> set res. PlainText x \<noteq> []"
    and t: "joinPlainText res \<noteq> []"
    and h: "\<not> white_space (hd (joinPlainText res))"
    and l: "\<not> white_space (last (joinPlainText res))"
  shows "joinPlainText (trim_ends res) = joinPlainText res"
proof -
  from t have res: "res \<noteq> []" by auto
  let ?n = "length res - 1"
  have first: "trimStart (PlainText (res ! 0)) = PlainText (res ! 0)"
    using res ne h join_hd [OF res ne] by (intro trimStart_id) (simp_all add: hd_conv_nth)
  have lastp: "trimEnd (PlainText (res ! ?n)) = PlainText (res ! ?n)"
    using res ne l join_last [OF res ne] by (intro trimEnd_id) (simp_all add: last_conv_nth)
  let ?r1 = "res[0 := trimStart_span (res ! 0)]"
  have r1: "PlainText (?r1 ! j) = PlainText (res ! j)" if "j < length res" for j
    using that first by (cases "j = 0") (simp_all add: trimStart_span_def)
  have "PlainText (trim_ends res ! i) = PlainText (res ! i)" if "i < length res" for i
  proof (cases "i = ?n")
    case True
    with that res r1 [of ?n] lastp show ?thesis
      by (simp add: trim_ends_def Let_def trimEnd_span_def)
  next
    case False
    with that res r1 [of i] show ?thesis
      by (simp add: trim_ends_def Let_def)
  qed
  moreover have "length (trim_ends res) = length res"
    by (simp add: trim_ends_def Let_def)
  ultimately have "map PlainText (trim_ends res) = map PlainText res"
    by (intro nth_equalityI) simp_all
  then show ?thesis
    by (simp add: joinPlainText_def)
qed

lemma extractRichTextRange_join:
  assumes "s \<le> e"
    and "take (e - s) (drop s (joinPlainText rts)) = t"
    and "t \<noteq> []" and "\<not> white_space (hd t)" and "\<not> white_space (last t)"
  shows "joinPlainText (extractRichTextRange rts s e) = t"
proof -
  have j: "joinPlainText (extract_loop s e 0 [] rts) = t"
    using extract_loop_join [OF assms(1), of 0 "[]" rts] assms(2) by (simp add: drop_take)
  have "joinPlainText (trim_ends (extract_loop s e 0 [] rts)) = joinPlainText (extract_loop s e 0 [] rts)"
    by (rule trim_ends_join) (use j assms extract_loop_nonempty_spans [of "[]" s e 0 rts] in simp_all)
  with j show ?thesis by (simp add: extractRichTextRange_def)
qed



section \<open>The examples of the end-of-block source\<close>

text \<open>
  On the paragraph whose text is \<^verbatim>\<open>See it here[^ft_a]\<close> followed by the definitions of \<^verbatim>\<open>a\<close>
  (\<^verbatim>\<open>first note\<close>) and of \<^verbatim>\<open>b\<close> (\<^verbatim>\<open>second note\<close>), end-of-block extraction produces one
  footnote, with key \<^verbatim>\<open>a\<close> and content \<^verbatim>\<open>first note\<close>; the definition of \<^verbatim>\<open>b\<close>, which has no
  inline marker, is dropped.
\<close>

lemma note_paragraph_result:
  "extractEndOfBlockFootnotes ft_RegExp note_paragraph (ft_config end_of_block) =
     Some (TextBlock ''p1'' Paragraph
             [plain ''See it here'',
              (plain ''[^ft_a]'')\<lparr>IsFootnoteMarker := Some True, FootnoteRef := Some ''a''\<rparr>] None,
           Inr \<lparr>footnotes =
                  [\<lparr>FnMarker = Some ''a'', FnFullMarker = ''[^ft_a]'',
                    FnContent = rich_text [plain ''first note''],
                    FnSourceLocation = content_location\<rparr>],
                hasProcessedRichTexts = True, hasProcessedChildren = False\<rparr>)"
  by code_simp

text \<open>
  Claim C7, on the code. The paragraph has the inline markers \<^verbatim>\<open>a\<close> and \<^verbatim>\<open>b\<close>; the definition of
  \<^verbatim>\<open>a\<close> is empty up to the blank line that ends it, and the definition of \<^verbatim>\<open>b\<close> is \<^verbatim>\<open>second\<close>.
  The definition of \<^verbatim>\<open>a\<close> is not skipped: end-of-block extraction produces one footnote, with
  key \<^verbatim>\<open>a\<close>, whose content is the text \<^verbatim>\<open>[^ft_b]: second\<close> of the definition that follows, and
  no footnote with key \<^verbatim>\<open>b\<close>.
\<close>

theorem empty_definition_takes_the_next:
  "extractEndOfBlockFootnotes ft_RegExp empty_note_paragraph (ft_config end_of_block) =
     Some (TextBlock ''p3'' Paragraph
             [plain ''x'',
              (plain ''[^ft_a]'')\<lparr>IsFootnoteMarker := Some True, FootnoteRef := Some ''a''\<rparr>,
              plain '' y'',
              (plain ''[^ft_b]'')\<lparr>IsFootnoteMarker := Some True, FootnoteRef := Some ''b''\<rparr>] None,
           Inr \<lparr>footnotes =
                  [\<lparr>FnMarker = Some ''a'', FnFullMarker = ''[^ft_a]'',
                    FnContent = rich_text [plain ''[^ft_b]: second''],
                    FnSourceLocation = content_location\<rparr>],
                hasProcessedRichTexts = True, hasProcessedChildren = False\<rparr>)"
  by code_simp

section \<open>The example of the start-of-child-blocks source\<close>

text \<open>
  Claim C2, on the code. For the block of the claim, start-of-child-blocks extraction
  produces the two footnotes, made of child 0 and of child 2 (each with its prefix removed
  and with its own child), but it leaves two children: child 1 and, again, child 2, which
  is the content of the second footnote. The two markers of the parent are made marker
  spans.
\<close>

theorem start_of_child_blocks_consumed_child_remains:
  "extractStartOfChildBlocksFootnotes ft_RegExp two_marker_parent (ft_config start_of_child_blocks)
   = Some (TextBlock ''p'' Paragraph
             [plain ''Text'',
              (plain ''[^ft_a]'')\<lparr>IsFootnoteMarker := Some True, FootnoteRef := Some ''a''\<rparr>,
              plain '' and'',
              (plain ''[^ft_b]'')\<lparr>IsFootnoteMarker := Some True, FootnoteRef := Some ''b''\<rparr>,
              plain ''.'']
             (Some [plain_child,
                    TextBlock ''c2'' Paragraph [plain ''note b'']
                      (Some [TextBlock ''g2'' Paragraph [plain ''below b''] None])]),
           Inr \<lparr>footnotes =
                  [\<lparr>FnMarker = Some ''a'', FnFullMarker = ''[^ft_a]'',
                    FnContent = blocks [TextBlock ''c0'' Paragraph [plain ''note a'']
                                          (Some [TextBlock ''g0'' Paragraph [plain ''below a''] None])],
                    FnSourceLocation = content_location\<rparr>,
                   \<lparr>FnMarker = Some ''b'', FnFullMarker = ''[^ft_b]'',
                    FnContent = blocks [TextBlock ''c2'' Paragraph [plain ''note b'']
                                          (Some [TextBlock ''g2'' Paragraph [plain ''below b''] None])],
                    FnSourceLocation = content_location\<rparr>],
                hasProcessedRichTexts = True, hasProcessedChildren = True\<rparr>)"
  by code_simp

section \<open>Properties of the sort\<close>

lemma consistent_sym:
  assumes "consistent_comparator compare"
  shows "compare a b = 0 \<longleftrightarrow> compare b a = 0"
proof -
  from assms have "(compare a b < 0) = (compare b a > 0)" "(compare b a < 0) = (compare a b > 0)"
    by (simp_all add: consistent_comparator_def)
  then show ?thesis by linarith
qed

lemma consistent_gt:
  assumes "consistent_comparator compare" and "\<not> compare a b \<le> 0"
  shows "compare b a \<le> 0"
proof -
  from assms(1) have "(compare b a < 0) = (compare a b > 0)"
    by (simp add: consistent_comparator_def)
  with assms(2) show ?thesis by linarith
qed

lemma consistent_trans:
  assumes "consistent_comparator compare" and "compare a b \<le> 0" and "compare b c \<le> 0"
  shows "compare a c \<le> 0"
  using assms unfolding consistent_comparator_def by blast

lemma consistent_equal:
  assumes c: "consistent_comparator compare" and "compare k x = 0" and "compare k y = 0"
  shows "compare x y = 0"
proof -
  from assms have xk: "compare x k = 0" using consistent_sym [OF c] by blast
  from assms have yk: "compare y k = 0" using consistent_sym [OF c] by blast
  have 1: "compare x y \<le> 0" by (rule consistent_trans [OF c, of x k y]) (simp_all add: xk assms)
  have 2: "compare y x \<le> 0" by (rule consistent_trans [OF c, of y k x]) (simp_all add: yk assms)
  from c have "(compare x y < 0) = (compare y x > 0)" by (simp add: consistent_comparator_def)
  with 1 2 show ?thesis by linarith
qed

lemma mset_insert_sorted: "mset (insert_sorted compare x ys) = add_mset x (mset ys)"
  by (induction ys) simp_all

lemma mset_array_sort: "mset (array_sort compare xs) = mset xs"
  by (induction xs) (simp_all add: array_sort_def mset_insert_sorted)

lemma set_insert_sorted: "set (insert_sorted compare x ys) = insert x (set ys)"
  by (induction ys) auto

lemma sorted_insert_sorted:
  assumes c: "consistent_comparator compare"
  shows "sorted_wrt (\<lambda>a b. compare a b \<le> 0) ys \<Longrightarrow>
         sorted_wrt (\<lambda>a b. compare a b \<le> 0) (insert_sorted compare x ys)"
proof (induction ys)
  case Nil
  then show ?case by simp
next
  case (Cons y ys)
  show ?case
  proof (cases "compare x y \<le> 0")
    case True
    have "compare x z \<le> 0" if "z \<in> set ys" for z
      by (rule consistent_trans [OF c True]) (use Cons.prems that in simp)
    with True Cons.prems show ?thesis by simp
  next
    case False
    from consistent_gt [OF c False] Cons show ?thesis
      by (simp add: False set_insert_sorted)
  qed
qed

lemma sorted_array_sort:
  assumes "consistent_comparator compare"
  shows "sorted_wrt (\<lambda>a b. compare a b \<le> 0) (array_sort compare xs)"
  by (induction xs) (simp_all add: array_sort_def sorted_insert_sorted [OF assms])

lemma filter_insert_sorted:
  assumes c: "consistent_comparator compare"
  shows "filter (\<lambda>y. compare k y = 0) (insert_sorted compare x ys) =
           (if compare k x = 0 then x # filter (\<lambda>y. compare k y = 0) ys
            else filter (\<lambda>y. compare k y = 0) ys)"
proof (induction ys)
  case Nil
  then show ?case by simp
next
  case (Cons y ys)
  show ?case
  proof (cases "compare x y \<le> 0")
    case True
    then show ?thesis by simp
  next
    case False
    have "\<not> (compare k x = 0 \<and> compare k y = 0)"
      using consistent_equal [OF c, of k x y] False by auto
    with False Cons.IH show ?thesis by auto
  qed
qed

lemma stable_array_sort:
  assumes "consistent_comparator compare"
  shows "filter (\<lambda>y. compare k y = 0) (array_sort compare xs) = filter (\<lambda>y. compare k y = 0) xs"
  by (induction xs) (simp_all add: array_sort_def filter_insert_sorted [OF assms])

lemma consistent_key_comparator:
  "consistent_comparator (\<lambda>a b. f a - (f b :: int))"
  by (auto simp: consistent_comparator_def)

lemma consistent_comparator_on:
  "consistent_comparator compare \<Longrightarrow> consistent_comparator (\<lambda>a b. compare (f a) (f b))"
  unfolding consistent_comparator_def by blast

text \<open>
  Claim C8, as amended. \<^verbatim>\<open>prepareBibliography\<close> returns a permutation of its input that,
  under the simplified-ieee style, is in non-decreasing order of Index (a citation without
  index counting as 0, as in \<^verbatim>\<open>a.Index || 0\<close>) and, under the apa style, is in non-decreasing
  order of Authors for the collation of the host, which is what \<^verbatim>\<open>localeCompare\<close> compares
  by; in both styles citations that compare equal keep their original relative order. The
  collation is a parameter; what is required of it is that it is a consistent comparator.
\<close>

theorem prepareBibliography_sorted_stable:
  assumes "consistent_comparator localeCompare"
  shows "mset (prepareBibliography localeCompare cits style) = mset cits
    \<and> (style = simplified_ieee \<longrightarrow>
         sorted_wrt (\<lambda>a b. index_or_0 a \<le> index_or_0 b)
           (prepareBibliography localeCompare cits style)
         \<and> (\<forall>n. filter (\<lambda>c. index_or_0 c = n) (prepareBibliography localeCompare cits style)
                 = filter (\<lambda>c. index_or_0 c = n) cits))
    \<and> (style = apa \<longrightarrow>
         sorted_wrt (\<lambda>a b. localeCompare (Authors a) (Authors b) \<le> 0)
           (prepareBibliography localeCompare cits style)
         \<and> (\<forall>s. filter (\<lambda>c. localeCompare s (Authors c) = 0)
                   (prepareBibliography localeCompare cits style)
                 = filter (\<lambda>c. localeCompare s (Authors c) = 0) cits))"
proof (intro conjI impI allI)
  show "mset (prepareBibliography localeCompare cits style) = mset cits"
    by (simp add: prepareBibliography_def mset_array_sort)
next
  assume "style = simplified_ieee"
  then have p: "prepareBibliography localeCompare cits style =
      array_sort (\<lambda>a b. index_or_0 a - index_or_0 b) cits"
    by (simp add: prepareBibliography_def)
  show "sorted_wrt (\<lambda>a b. index_or_0 a \<le> index_or_0 b)
           (prepareBibliography localeCompare cits style)"
    using sorted_array_sort [OF consistent_key_comparator [of index_or_0], of cits]
    by (simp add: p)
  show "filter (\<lambda>c. index_or_0 c = n) (prepareBibliography localeCompare cits style)
                 = filter (\<lambda>c. index_or_0 c = n) cits" for n
  proof -
    let ?k = "\<lparr>Key = [], FormattedEntry = [], Authors = [], Year = [], Index = Some n,
               SourceBlockIds = []\<rparr>"
    have "(\<lambda>y. index_or_0 ?k - index_or_0 y = 0) = (\<lambda>c. index_or_0 c = n)"
      by (auto simp: index_or_0_def)
    with stable_array_sort [OF consistent_key_comparator [of index_or_0], of ?k cits]
    show ?thesis by (simp add: p)
  qed
next
  assume "style = apa"
  then have p: "prepareBibliography localeCompare cits style =
      array_sort (\<lambda>a b. localeCompare (Authors a) (Authors b)) cits"
    by (simp add: prepareBibliography_def)
  note c = consistent_comparator_on [OF assms, of Authors]
  show "sorted_wrt (\<lambda>a b. localeCompare (Authors a) (Authors b) \<le> 0)
           (prepareBibliography localeCompare cits style)"
    using sorted_array_sort [OF c, of cits] by (simp add: p)
  show "filter (\<lambda>c. localeCompare s (Authors c) = 0)
                   (prepareBibliography localeCompare cits style)
                 = filter (\<lambda>c. localeCompare s (Authors c) = 0) cits" for s
    using stable_array_sort [OF c,
        of "\<lparr>Key = [], FormattedEntry = [], Authors = s, Year = [], Index = None,
             SourceBlockIds = []\<rparr>" cits]
    by (simp add: p)
qed

lemma code_unit_compare_sign:
  "(code_unit_compare a b < 0) = (code_unit_compare b a > 0)"
  by (induction a b rule: code_unit_compare.induct) auto

lemma code_unit_compare_trans:
  "code_unit_compare a b \<le> 0 \<Longrightarrow> code_unit_compare b c \<le> 0 \<Longrightarrow> code_unit_compare a c \<le> 0"
proof (induction a arbitrary: b c)
  case Nil
  then show ?case by (cases c) simp_all
next
  case (Cons x xs)
  from Cons.prems obtain y ys where b: "b = y # ys" by (cases b) simp_all
  with Cons.prems obtain z zs where c: "c = z # zs" by (cases c) simp_all
  from Cons.prems Cons.IH [of ys zs] show ?case
    unfolding b c by (auto split: if_splits)
qed

lemma consistent_code_unit_compare: "consistent_comparator code_unit_compare"
  unfolding consistent_comparator_def
  using code_unit_compare_sign code_unit_compare_trans by blast

lemma consistent_flip:
  assumes "consistent_comparator compare"
  shows "consistent_comparator (\<lambda>a b. compare b a)"
  using assms unfolding consistent_comparator_def by blast

lemma consistent_zero:
  assumes "consistent_comparator compare"
  shows "(compare a b = 0) = (compare b a = 0)"
proof -
  from assms have "(compare a b < 0) = (compare b a > 0)" "(compare b a < 0) = (compare a b > 0)"
    by (simp_all add: consistent_comparator_def)
  then show ?thesis by linarith
qed

lemma consistent_strict:
  assumes c: "consistent_comparator compare" and "compare a b \<le> 0" and "compare b c \<le> 0"
    and "compare a c = 0"
  shows "compare a b = 0 \<and> compare b c = 0"
proof -
  from c have sym: "\<And>x y. (compare x y < 0) = (compare y x > 0)"
    and tr: "\<And>x y z. compare x y \<le> 0 \<Longrightarrow> compare y z \<le> 0 \<Longrightarrow> compare x z \<le> 0"
    unfolding consistent_comparator_def by blast+
  from consistent_zero [OF c, of a c] assms(4) have ca: "compare c a \<le> 0" by simp
  from tr [OF ca assms(2)] have "compare c b \<le> 0" .
  with sym [of b c] assms(3) have bc: "compare b c = 0" by linarith
  from tr [OF assms(3) ca] have "compare b a \<le> 0" .
  with sym [of a b] assms(2) have "compare a b = 0" by linarith
  with bc show ?thesis by simp
qed

lemma consistent_lexicographic:
  assumes f: "consistent_comparator f" and g: "consistent_comparator g"
  shows "consistent_comparator (\<lambda>a b. if f a b \<noteq> 0 then f a b else g a b)"
  unfolding consistent_comparator_def
proof (intro conjI allI impI)
  fix a b
  from f have "(f a b < 0) = (f b a > 0)" by (simp add: consistent_comparator_def)
  moreover from g have "(g a b < 0) = (g b a > 0)" by (simp add: consistent_comparator_def)
  moreover note consistent_zero [OF f, of a b]
  ultimately show "((if f a b \<noteq> 0 then f a b else g a b) < 0)
                   = ((if f b a \<noteq> 0 then f b a else g b a) > 0)"
    by auto
next
  fix a b c
  assume ab: "(if f a b \<noteq> 0 then f a b else g a b) \<le> 0"
    and bc: "(if f b c \<noteq> 0 then f b c else g b c) \<le> 0"
  from f have ftr: "\<And>x y z. f x y \<le> 0 \<Longrightarrow> f y z \<le> 0 \<Longrightarrow> f x z \<le> 0"
    unfolding consistent_comparator_def by blast
  from g have gtr: "\<And>x y z. g x y \<le> 0 \<Longrightarrow> g y z \<le> 0 \<Longrightarrow> g x z \<le> 0"
    unfolding consistent_comparator_def by blast
  from ab have fab: "f a b \<le> 0" by (auto split: if_splits)
  from bc have fbc: "f b c \<le> 0" by (auto split: if_splits)
  from ftr [OF fab fbc] have fac: "f a c \<le> 0" .
  show "(if f a c \<noteq> 0 then f a c else g a c) \<le> 0"
  proof (cases "f a c = 0")
    case False
    with fac show ?thesis by simp
  next
    case True
    from consistent_strict [OF f fab fbc True] have "f a b = 0" "f b c = 0" by simp_all
    with ab bc have "g a b \<le> 0" "g b c \<le> 0" by simp_all
    from gtr [OF this] True show ?thesis by simp
  qed
qed

lemma consistent_letter_collation: "consistent_comparator letter_collation"
proof -
  have "letter_collation =
          (\<lambda>a b. if code_unit_compare (map lower_case a) (map lower_case b) \<noteq> 0
                  then code_unit_compare (map lower_case a) (map lower_case b)
                  else code_unit_compare b a)"
    by (rule ext)+ (simp add: letter_collation_def Let_def)
  moreover have "consistent_comparator \<dots>"
    by (rule consistent_lexicographic
          [OF consistent_comparator_on [OF consistent_code_unit_compare]
              consistent_flip [OF consistent_code_unit_compare]])
  ultimately show ?thesis by simp
qed

theorem prepareBibliography_sorted_stable_witness:
  "consistent_comparator letter_collation
   \<and> prepareBibliography letter_collation collated_list apa =
       [cited ''k2'' ''adams'' (Some 3), cited ''k4'' ''Clark'' (Some 2),
        cited ''k1'' ''Zhang'' (Some 2), cited ''k3'' ''Zhang'' (Some 1)]
   \<and> prepareBibliography letter_collation collated_list simplified_ieee =
       [cited ''k3'' ''Zhang'' (Some 1), cited ''k1'' ''Zhang'' (Some 2),
        cited ''k4'' ''Clark'' (Some 2), cited ''k2'' ''adams'' (Some 3)]
   \<and> mset (prepareBibliography letter_collation collated_list apa) = mset collated_list
   \<and> sorted_wrt (\<lambda>a b. letter_collation (Authors a) (Authors b) \<le> 0)
       (prepareBibliography letter_collation collated_list apa)
   \<and> sorted_wrt (\<lambda>a b. index_or_0 a \<le> index_or_0 b)
       (prepareBibliography letter_collation collated_list simplified_ieee)"
proof -
  note c = consistent_letter_collation
  have a: "prepareBibliography letter_collation collated_list apa =
       [cited ''k2'' ''adams'' (Some 3), cited ''k4'' ''Clark'' (Some 2),
        cited ''k1'' ''Zhang'' (Some 2), cited ''k3'' ''Zhang'' (Some 1)]"
    by code_simp
  have i: "prepareBibliography letter_collation collated_list simplified_ieee =
       [cited ''k3'' ''Zhang'' (Some 1), cited ''k1'' ''Zhang'' (Some 2),
        cited ''k4'' ''Clark'' (Some 2), cited ''k2'' ''adams'' (Some 3)]"
    by code_simp
  from prepareBibliography_sorted_stable [OF c, of collated_list apa]
  have 1: "mset (prepareBibliography letter_collation collated_list apa) = mset collated_list"
    and 2: "sorted_wrt (\<lambda>a b. letter_collation (Authors a) (Authors b) \<le> 0)
       (prepareBibliography letter_collation collated_list apa)"
    by simp_all
  from prepareBibliography_sorted_stable [OF c, of collated_list simplified_ieee]
  have 3: "sorted_wrt (\<lambda>a b. index_or_0 a \<le> index_or_0 b)
       (prepareBibliography letter_collation collated_list simplified_ieee)"
    by simp
  from c a i 1 2 3 show ?thesis by blast
qed

text \<open>
  Claim C8, as it was stated, on the code: the order of the apa style is not the
  lexicographic order of the authors. With the collation of an English locale the citation
  of \<^verbatim>\<open>adams\<close> is put before the citation of \<^verbatim>\<open>Zhang\<close>, and \<^verbatim>\<open>adams\<close> is after \<^verbatim>\<open>Zhang\<close> in the
  lexicographic order.
\<close>

theorem prepareBibliography_not_lexicographic:
  "prepareBibliography letter_collation zhang_adams apa =
     [cited ''k2'' ''adams'' None, cited ''k1'' ''Zhang'' None]
   \<and> 0 < code_unit_compare (Authors (cited ''k2'' ''adams'' None))
                            (Authors (cited ''k1'' ''Zhang'' None))"
  by code_simp

section \<open>The clone and its original\<close>

text \<open>
  Claim C3, on the code. The clone of a span is a structurally equal copy, and a write to
  \<^verbatim>\<open>Text.Link.Url\<close> through the clone leaves the original as it was; but the clone's
  \<^verbatim>\<open>Mention\<close> is a one-level copy that refers to the same \<^verbatim>\<open>Page\<close> object, so a write to
  \<^verbatim>\<open>Mention.Page.PageId\<close> through the clone changes the original.
\<close>

theorem clone_shares_mention_page:
  "read_span page_mention_store 0 = Some page_mention
   \<and> clone_then_write assign_Text_Link_Url page_mention_store 0 ''https://example.org/b'' =
       Some (Some page_mention, Some page_mention, Some page_mention)
   \<and> clone_then_write assign_Mention_Page_PageId page_mention_store 0 ''page-2'' =
       Some (Some page_mention, Some page_mention,
             Some (page_mention\<lparr>Mention :=
                     Some \<lparr>MentionType = ''page'',
                           Page = Some \<lparr>PageId = ''page-2'', ContentType = ''page''\<rparr>,
                           DateStr = None, LinkMention = None, CustomEmoji = None\<rparr>\<rparr>))"
  by code_simp

end
